theory Spec2Isabelle
  imports Main "HOL-Library.Word"
begin

section \<open>Strings\<close>

text \<open>
  A JavaScript string is a sequence of UTF-16 code units; indexing a string
  (\<^verbatim>\<open>this.input[this.position]\<close>) yields one code unit.  The lexer's identifier
  rule and the diagnostics of the parser use characters beyond Latin-1, so a code
  unit is a 16-bit word and a string a list of them.  \<open>js\<close> embeds an ASCII literal.
\<close>

type_synonym jschar = "16 word"
type_synonym jsstring = "jschar list"

definition js :: "string \<Rightarrow> jsstring" where
  "js s = map of_char s"

text \<open>\<^verbatim>\<open>Array.prototype.join\<close> on an array of strings.\<close>

fun join :: "jsstring \<Rightarrow> jsstring list \<Rightarrow> jsstring" where
  "join sep [] = []"
| "join sep [x] = x"
| "join sep (x # y # ys) = x @ sep @ join sep (y # ys)"

section \<open>Tokens (lexer.js: TokenType)\<close>

datatype tokentype =
    Number | IdentifierT | Command
  | Plus | Minus | Multiply | Divide | Power | Equals
  | LParen | RParen | LBracket | RBracket | LBrace | RBrace
  | Comma | Semicolon | Dot
  | LessThan | GreaterThan | LessEqual | GreaterEqual | NotEqual
  | Unknown | EOF

text \<open>The string each member of \<^verbatim>\<open>TokenType\<close> stands for (it is printed in diagnostics).\<close>

fun typeName :: "tokentype \<Rightarrow> jsstring" where
  "typeName Number = js ''Number''"
| "typeName IdentifierT = js ''Identifier''"
| "typeName Command = js ''Command''"
| "typeName Plus = js ''Plus''"
| "typeName Minus = js ''Minus''"
| "typeName Multiply = js ''Multiply''"
| "typeName Divide = js ''Divide''"
| "typeName Power = js ''Power''"
| "typeName Equals = js ''Equals''"
| "typeName LParen = js ''LParen''"
| "typeName RParen = js ''RParen''"
| "typeName LBracket = js ''LBracket''"
| "typeName RBracket = js ''RBracket''"
| "typeName LBrace = js ''LBrace''"
| "typeName RBrace = js ''RBrace''"
| "typeName Comma = js ''Comma''"
| "typeName Semicolon = js ''Semicolon''"
| "typeName Dot = js ''Dot''"
| "typeName LessThan = js ''LessThan''"
| "typeName GreaterThan = js ''GreaterThan''"
| "typeName LessEqual = js ''LessEqual''"
| "typeName GreaterEqual = js ''GreaterEqual''"
| "typeName NotEqual = js ''NotEqual''"
| "typeName Unknown = js ''Unknown''"
| "typeName EOF = js ''EOF''"

text \<open>A token object \<^verbatim>\<open>{ type, value }\<close>.\<close>

record token =
  tok_type :: tokentype
  tok_value :: jsstring

definition mkToken :: "tokentype \<Rightarrow> jsstring \<Rightarrow> token" where
  "mkToken t v = \<lparr>tok_type = t, tok_value = v\<rparr>"

section \<open>The lexer (class Lexer)\<close>

subsection \<open>Character classes of the regular expressions\<close>

text \<open>\<^verbatim>\<open>/\s/\<close>: the white space and line terminator code units of ECMAScript.\<close>

definition isWhitespace :: "jschar \<Rightarrow> bool" where
  "isWhitespace c \<longleftrightarrow>
     c = 0x09 \<or> c = 0x0A \<or> c = 0x0B \<or> c = 0x0C \<or> c = 0x0D \<or> c = 0x20 \<or> c = 0xA0
   \<or> c = 0x1680 \<or> (0x2000 \<le> c \<and> c \<le> 0x200A) \<or> c = 0x2028 \<or> c = 0x2029
   \<or> c = 0x202F \<or> c = 0x205F \<or> c = 0x3000 \<or> c = 0xFEFF"

text \<open>\<^verbatim>\<open>/[0-9]/\<close>\<close>

definition isDigit :: "jschar \<Rightarrow> bool" where
  "isDigit c \<longleftrightarrow> 0x30 \<le> c \<and> c \<le> 0x39"

text \<open>\<^verbatim>\<open>/[a-zA-Z]/\<close>\<close>

definition isLetter :: "jschar \<Rightarrow> bool" where
  "isLetter c \<longleftrightarrow> (0x61 \<le> c \<and> c \<le> 0x7A) \<or> (0x41 \<le> c \<and> c \<le> 0x5A)"

text \<open>\<^verbatim>\<open>/[a-zA-Z\<pi>_]/\<close>, the Greek small letter pi being U+03C0.\<close>

definition isIdentStart :: "jschar \<Rightarrow> bool" where
  "isIdentStart c \<longleftrightarrow> isLetter c \<or> c = 0x3C0 \<or> c = 0x5F"

text \<open>\<^verbatim>\<open>/[a-zA-Z\<pi>0-9_]/\<close>\<close>

definition isIdentPart :: "jschar \<Rightarrow> bool" where
  "isIdentPart c \<longleftrightarrow> isLetter c \<or> c = 0x3C0 \<or> isDigit c \<or> c = 0x5F"

subsection \<open>Lexer state\<close>

text \<open>
  The fields of a \<^verbatim>\<open>Lexer\<close> object.  The field \<^verbatim>\<open>state\<close> is set once by the
  constructor and never read or written again, so it is left out.
\<close>

record lexer =
  input :: jsstring
  lexPosition :: nat
  currentChar :: "jschar option"
  lexTokens :: "token list"
  line :: nat
  column :: nat

definition newLexer :: "jsstring \<Rightarrow> lexer" where
  "newLexer inp =
     \<lparr>input = inp, lexPosition = 0,
      currentChar = (if length inp > 0 then Some (inp ! 0) else None),
      lexTokens = [], line = 1, column = 1\<rparr>"

definition advance :: "lexer \<Rightarrow> lexer" where
  "advance L =
     (let L1 = L\<lparr>lexPosition := lexPosition L + 1, column := column L + 1\<rparr>
      in if lexPosition L1 \<ge> length (input L1) then L1\<lparr>currentChar := None\<rparr>
         else
           (let L2 = L1\<lparr>currentChar := Some (input L1 ! lexPosition L1)\<rparr>
            in if currentChar L2 = Some 0x0A
               then L2\<lparr>line := line L2 + 1, column := 1\<rparr>
               else L2))"

definition lexPeek :: "lexer \<Rightarrow> nat \<Rightarrow> jschar option" where
  "lexPeek L offset =
     (let peekPos = lexPosition L + offset
      in if peekPos \<ge> length (input L) then None else Some (input L ! peekPos))"

text \<open>
  The number of characters a loop of the lexer can still consume: every loop
  tests \<^verbatim>\<open>this.currentChar !== null\<close> and then calls \<^verbatim>\<open>advance\<close>.
\<close>

definition remaining :: "lexer \<Rightarrow> nat" where
  "remaining L =
     (case currentChar L of None \<Rightarrow> 0 | Some c \<Rightarrow> Suc (length (input L) - lexPosition L))"

lemma remaining_advance:
  "currentChar L \<noteq> None \<Longrightarrow> remaining (advance L) < remaining L"
  by (auto simp: remaining_def advance_def Let_def split: option.splits)

subsection \<open>Scanning functions\<close>

function skipWhitespace :: "lexer \<Rightarrow> lexer" where
  "skipWhitespace L =
     (case currentChar L of
        None \<Rightarrow> L
      | Some c \<Rightarrow> if isWhitespace c then skipWhitespace (advance L) else L)"
  by pat_completeness auto
termination
  by (relation "measure remaining") (auto intro: remaining_advance)

declare skipWhitespace.simps [simp del]

text \<open>The loop of \<^verbatim>\<open>processNumber\<close>, on its locals \<^verbatim>\<open>result\<close> and \<^verbatim>\<open>hasDot\<close>.\<close>

function processNumber_loop :: "jsstring \<Rightarrow> bool \<Rightarrow> lexer \<Rightarrow> jsstring \<times> lexer" where
  "processNumber_loop result hasDot L =
     (case currentChar L of
        None \<Rightarrow> (result, L)
      | Some c \<Rightarrow>
          if isDigit c \<or> (c = 0x2E \<and> \<not> hasDot)
          then processNumber_loop (result @ [c]) (if c = 0x2E then True else hasDot) (advance L)
          else (result, L))"
  by pat_completeness auto
termination
  by (relation "measure (\<lambda>(r, h, L). remaining L)") (auto intro: remaining_advance)

declare processNumber_loop.simps [simp del]

definition processNumber :: "lexer \<Rightarrow> token \<times> lexer" where
  "processNumber L =
     (case processNumber_loop [] False L of (result, L') \<Rightarrow> (mkToken Number result, L'))"

function processIdentifier_loop :: "jsstring \<Rightarrow> lexer \<Rightarrow> jsstring \<times> lexer" where
  "processIdentifier_loop result L =
     (case currentChar L of
        None \<Rightarrow> (result, L)
      | Some c \<Rightarrow>
          if isIdentPart c then processIdentifier_loop (result @ [c]) (advance L)
          else (result, L))"
  by pat_completeness auto
termination
  by (relation "measure (\<lambda>(r, L). remaining L)") (auto intro: remaining_advance)

declare processIdentifier_loop.simps [simp del]

definition processIdentifier :: "lexer \<Rightarrow> token \<times> lexer" where
  "processIdentifier L =
     (case processIdentifier_loop [] L of (result, L') \<Rightarrow> (mkToken IdentifierT result, L'))"

function processCommand_loop :: "jsstring \<Rightarrow> lexer \<Rightarrow> jsstring \<times> lexer" where
  "processCommand_loop result L =
     (case currentChar L of
        None \<Rightarrow> (result, L)
      | Some c \<Rightarrow>
          if isLetter c then processCommand_loop (result @ [c]) (advance L)
          else (result, L))"
  by pat_completeness auto
termination
  by (relation "measure (\<lambda>(r, L). remaining L)") (auto intro: remaining_advance)

declare processCommand_loop.simps [simp del]

text \<open>\<^verbatim>\<open>result\<close> starts as the one-character string of a backslash (U+005C).\<close>

definition processCommand :: "lexer \<Rightarrow> token \<times> lexer" where
  "processCommand L =
     (case processCommand_loop [0x5C] (advance L) of
        (result, L') \<Rightarrow> (mkToken Command result, L'))"

text \<open>The table \<^verbatim>\<open>operatorMap\<close>, keyed by one character.\<close>

definition operatorMap :: "jschar \<Rightarrow> tokentype option" where
  "operatorMap c =
     (if c = 0x2B then Some Plus
      else if c = 0x2D then Some Minus
      else if c = 0x2A then Some Multiply
      else if c = 0x2F then Some Divide
      else if c = 0x5E then Some Power
      else if c = 0x3D then Some Equals
      else if c = 0x28 then Some LParen
      else if c = 0x29 then Some RParen
      else if c = 0x5B then Some LBracket
      else if c = 0x5D then Some RBracket
      else if c = 0x7B then Some LBrace
      else if c = 0x7D then Some RBrace
      else if c = 0x2C then Some Comma
      else if c = 0x3B then Some Semicolon
      else if c = 0x2E then Some Dot
      else if c = 0x3C then Some LessThan
      else if c = 0x3E then Some GreaterThan
      else None)"

text \<open>
  \<^verbatim>\<open>processOperator\<close> is only called with a current character; were it \<^verbatim>\<open>null\<close>,
  the source would fall to its last branch and return an Unknown token whose
  value is \<^verbatim>\<open>null\<close>, which the model writes as the empty text.
\<close>

definition processOperator :: "lexer \<Rightarrow> token \<times> lexer" where
  "processOperator L =
     (if currentChar L = Some 0x3C \<and> lexPeek L 1 = Some 0x3D
      then (mkToken LessEqual (js ''<=''), advance (advance L))
      else if currentChar L = Some 0x3E \<and> lexPeek L 1 = Some 0x3D
      then (mkToken GreaterEqual (js ''>=''), advance (advance L))
      else if currentChar L = Some 0x21 \<and> lexPeek L 1 = Some 0x3D
      then (mkToken NotEqual (js ''!=''), advance (advance L))
      else
        (case currentChar L of
           None \<Rightarrow> (mkToken Unknown [], advance L)
         | Some c \<Rightarrow>
            (case operatorMap c of
               Some t \<Rightarrow> (mkToken t [c], advance L)
             | None \<Rightarrow> (mkToken Unknown [c], advance L))))"

lemma remaining_skipWhitespace: "remaining (skipWhitespace L) \<le> remaining L"
proof (induction L rule: skipWhitespace.induct)
  case (1 L)
  show ?case
  proof (cases "currentChar L")
    case None
    then show ?thesis by (subst skipWhitespace.simps) simp
  next
    case (Some c)
    show ?thesis
    proof (cases "isWhitespace c")
      case True
      have "remaining (advance L) < remaining L"
        using Some by (simp add: remaining_advance)
      moreover have "remaining (skipWhitespace (advance L)) \<le> remaining (advance L)"
        using "1.IH" Some True by simp
      ultimately show ?thesis using Some True by (subst skipWhitespace.simps) simp
    next
      case False
      then show ?thesis using Some by (subst skipWhitespace.simps) simp
    qed
  qed
qed

lemma remaining_skipWhitespace_less:
  "currentChar L = Some c \<Longrightarrow> isWhitespace c \<Longrightarrow> remaining (skipWhitespace L) < remaining L"
  using remaining_skipWhitespace [of "advance L"] remaining_advance [of L]
  by (subst skipWhitespace.simps) simp

text \<open>
  \<^verbatim>\<open>/[0-9]/.test(this.peek())\<close> with \<^verbatim>\<open>peek()\<close> being \<^verbatim>\<open>null\<close> tests the string
  "null", which holds no digit.
\<close>

function getNextToken :: "lexer \<Rightarrow> token \<times> lexer" where
  "getNextToken L =
     (case currentChar L of
        None \<Rightarrow> (mkToken EOF [], L)
      | Some c \<Rightarrow>
          if isWhitespace c then getNextToken (skipWhitespace L)
          else if isDigit c \<or> (c = 0x2E \<and> (case lexPeek L 1 of None \<Rightarrow> False | Some d \<Rightarrow> isDigit d))
          then processNumber L
          else if isIdentStart c then processIdentifier L
          else if c = 0x5C then processCommand L
          else processOperator L)"
  by pat_completeness auto
termination
  by (relation "measure remaining") (auto intro: remaining_skipWhitespace_less)

declare getNextToken.simps [simp del]


text \<open>Every scanning function leaves at most as much input as it found.\<close>

lemma remaining_processNumber_loop:
  "remaining (snd (processNumber_loop result hasDot L)) \<le> remaining L"
proof (induction result hasDot L rule: processNumber_loop.induct)
  case (1 result hasDot L)
  show ?case
  proof (cases "currentChar L")
    case None
    then show ?thesis by (subst processNumber_loop.simps) simp
  next
    case (Some c)
    show ?thesis
    proof (cases "isDigit c \<or> (c = 0x2E \<and> \<not> hasDot)")
      case True
      have "remaining (advance L) < remaining L"
        using Some by (simp add: remaining_advance)
      moreover have "remaining (snd (processNumber_loop (result @ [c])
          (if c = 0x2E then True else hasDot) (advance L))) \<le> remaining (advance L)"
        using "1.IH" [OF Some True] .
      ultimately show ?thesis
        using Some True by (subst processNumber_loop.simps) simp
    next
      case False
      then show ?thesis using Some by (subst processNumber_loop.simps) auto
    qed
  qed
qed

lemma remaining_processIdentifier_loop:
  "remaining (snd (processIdentifier_loop result L)) \<le> remaining L"
proof (induction result L rule: processIdentifier_loop.induct)
  case (1 result L)
  show ?case
  proof (cases "currentChar L")
    case None
    then show ?thesis by (subst processIdentifier_loop.simps) simp
  next
    case (Some c)
    show ?thesis
    proof (cases "isIdentPart c")
      case True
      have "remaining (advance L) < remaining L"
        using Some by (simp add: remaining_advance)
      moreover have "remaining (snd (processIdentifier_loop (result @ [c]) (advance L)))
          \<le> remaining (advance L)"
        using "1.IH" [OF Some True] .
      ultimately show ?thesis
        using Some True by (subst processIdentifier_loop.simps) simp
    next
      case False
      then show ?thesis using Some by (subst processIdentifier_loop.simps) simp
    qed
  qed
qed

lemma remaining_processCommand_loop:
  "remaining (snd (processCommand_loop result L)) \<le> remaining L"
proof (induction result L rule: processCommand_loop.induct)
  case (1 result L)
  show ?case
  proof (cases "currentChar L")
    case None
    then show ?thesis by (subst processCommand_loop.simps) simp
  next
    case (Some c)
    show ?thesis
    proof (cases "isLetter c")
      case True
      have "remaining (advance L) < remaining L"
        using Some by (simp add: remaining_advance)
      moreover have "remaining (snd (processCommand_loop (result @ [c]) (advance L)))
          \<le> remaining (advance L)"
        using "1.IH" [OF Some True] .
      ultimately show ?thesis
        using Some True by (subst processCommand_loop.simps) simp
    next
      case False
      then show ?thesis using Some by (subst processCommand_loop.simps) simp
    qed
  qed
qed

lemma remaining_processNumber:
  assumes "currentChar L = Some c" and "isDigit c \<or> c = 0x2E"
  shows "remaining (snd (processNumber L)) < remaining L"
proof -
  have "remaining (advance L) < remaining L"
    using assms by (simp add: remaining_advance)
  moreover have "remaining (snd (processNumber_loop [c] (if c = 0x2E then True else False)
      (advance L))) \<le> remaining (advance L)"
    by (rule remaining_processNumber_loop)
  ultimately show ?thesis
    using assms
    by (auto simp: processNumber_def processNumber_loop.simps [of "[]" False L]
        split: prod.splits)
qed

lemma remaining_processIdentifier:
  assumes "currentChar L = Some c" and "isIdentStart c"
  shows "remaining (snd (processIdentifier L)) < remaining L"
proof -
  have "remaining (advance L) < remaining L"
    using assms by (simp add: remaining_advance)
  moreover have "remaining (snd (processIdentifier_loop [c] (advance L))) \<le> remaining (advance L)"
    by (rule remaining_processIdentifier_loop)
  moreover have "isIdentPart c"
    using assms by (auto simp: isIdentStart_def isIdentPart_def)
  ultimately show ?thesis
    using assms
    by (auto simp: processIdentifier_def processIdentifier_loop.simps [of "[]" L]
        split: prod.splits)
qed

lemma remaining_processCommand:
  assumes "currentChar L = Some c"
  shows "remaining (snd (processCommand L)) < remaining L"
proof -
  have "remaining (advance L) < remaining L"
    using assms by (simp add: remaining_advance)
  moreover have "remaining (snd (processCommand_loop [0x5C] (advance L))) \<le> remaining (advance L)"
    by (rule remaining_processCommand_loop)
  ultimately show ?thesis
    by (auto simp: processCommand_def split: prod.splits)
qed

lemma remaining_advance_advance: "remaining (advance (advance L)) \<le> remaining (advance L)"
  by (auto simp: remaining_def advance_def Let_def split: option.splits)

lemma remaining_processOperator:
  assumes "currentChar L = Some c"
  shows "remaining (snd (processOperator L)) < remaining L"
proof -
  have "remaining (advance L) < remaining L"
    using assms by (simp add: remaining_advance)
  moreover have "remaining (advance (advance L)) \<le> remaining (advance L)"
    by (rule remaining_advance_advance)
  ultimately show ?thesis
    using assms by (auto simp: processOperator_def split: option.splits)
qed

lemma remaining_getNextToken:
  "tok_type (fst (getNextToken L)) \<noteq> EOF \<Longrightarrow> remaining (snd (getNextToken L)) < remaining L"
proof (induction L rule: getNextToken.induct)
  case (1 L)
  show ?case
  proof (cases "currentChar L")
    case None
    then show ?thesis
      using "1.prems" by (simp add: getNextToken.simps [of L] mkToken_def)
  next
    case (Some c)
    show ?thesis
    proof (cases "isWhitespace c")
      case True
      then have eq: "getNextToken L = getNextToken (skipWhitespace L)"
        using Some by (simp add: getNextToken.simps [of L])
      have "remaining (snd (getNextToken (skipWhitespace L))) < remaining (skipWhitespace L)"
        using "1.IH" [OF Some True] "1.prems" eq by simp
      moreover have "remaining (skipWhitespace L) < remaining L"
        using Some True by (rule remaining_skipWhitespace_less)
      ultimately show ?thesis using eq by simp
    next
      case False
      then show ?thesis
        using Some remaining_processNumber [OF Some] remaining_processIdentifier [OF Some]
          remaining_processCommand [OF Some] remaining_processOperator [OF Some]
        by (simp add: getNextToken.simps [of L])
    qed
  qed
qed

lemma remaining_push_getNextToken:
  assumes "getNextToken (L\<lparr>lexTokens := lexTokens L @ [token]\<rparr>) = (token', L')"
    and "tok_type token' \<noteq> EOF"
  shows "remaining L' < remaining L"
proof -
  define L2 where "L2 = L\<lparr>lexTokens := lexTokens L @ [token]\<rparr>"
  have "getNextToken L2 = (token', L')"
    using assms(1) by (simp add: L2_def)
  then have fs: "fst (getNextToken L2) = token'" "snd (getNextToken L2) = L'"
    by simp_all
  have "remaining L2 = remaining L"
    by (simp add: L2_def remaining_def split: option.splits)
  then show ?thesis
    using remaining_getNextToken [of L2] fs assms(2) by simp
qed

text \<open>
  The loop of \<^verbatim>\<open>tokenize\<close>: \<^verbatim>\<open>token\<close> is the token just read, not yet pushed.  A
  token other than EOF has consumed at least one character, which bounds the loop.
\<close>

function tokenize_loop :: "token \<Rightarrow> lexer \<Rightarrow> lexer" where
  "tokenize_loop token L =
     (if tok_type token \<noteq> EOF
      then
        (case getNextToken (L\<lparr>lexTokens := lexTokens L @ [token]\<rparr>) of
           (token', L') \<Rightarrow> tokenize_loop token' L')
      else L)"
  by pat_completeness auto
termination
  by (relation "measure (\<lambda>(t, L). if tok_type t = EOF then 0 else Suc (remaining L))")
    (auto dest: remaining_push_getNextToken split: prod.splits)

declare tokenize_loop.simps [simp del]

definition tokenize :: "lexer \<Rightarrow> token list" where
  "tokenize L = (case getNextToken L of (token, L') \<Rightarrow> lexTokens (tokenize_loop token L'))"

text \<open>\<^verbatim>\<open>lex(input)\<close>; its \<^verbatim>\<open>console.log\<close> has no effect on the result.\<close>

definition lex_js :: "jsstring \<Rightarrow> token list" where
  "lex_js inp = tokenize (newLexer inp)"

section \<open>Abstract syntax (parser.js: ASTNodeType)\<close>

text \<open>
  A node object, by its \<^verbatim>\<open>type\<close> field.  The parser puts \<^verbatim>\<open>null\<close> where it could
  not build a node (error recovery), also as the child of another node; \<open>Null\<close>
  stands for it.  \<^verbatim>\<open>Program\<close> is declared in the source and never built.
\<close>

datatype ast =
    Null
  | NumberLiteral jsstring
  | Identifier jsstring
  | BinaryExpression jsstring ast ast
  | UnaryExpression jsstring ast
  | FunctionCall jsstring "ast list"
  | ArrayExpression "ast list"
  | MatrixExpression "ast list list"
  | ComparisonExpression jsstring ast ast
  | AssignmentExpression jsstring ast ast
  | ParenthesizedExpression ast

section \<open>The parser (class Parser)\<close>

subsection \<open>Diagnostic texts\<close>

text \<open>
  The literal parts of the diagnostics, as UTF-16 code units.  In the order of the
  definitions they read: "unexpected end of input.", "is required.",
  "is required, but", "was found.", " token: ", "parsing finished, but
  unprocessed tokens remain: ", "unexpected end of input. an expression is
  required.", "unexpected token: ", "the numerator of the \frac command was not
  found. the form {expression} is required.", the same for the denominator, and
  "unexpected token inside a matrix: ".
\<close>

definition msgUnexpectedEnd :: jsstring where
  "msgUnexpectedEnd =
     [0x4E88, 0x671F, 0x305B, 0x306C, 0x5165, 0x529B, 0x306E, 0x7D42, 0x308F, 0x308A,
      0x3067, 0x3059, 0x3002]"

definition msgIsRequired :: jsstring where
  "msgIsRequired = [0x304C, 0x5FC5, 0x8981, 0x3067, 0x3059, 0x3002]"

definition msgIsRequiredBut :: jsstring where
  "msgIsRequiredBut = [0x304C, 0x5FC5, 0x8981, 0x3067, 0x3059, 0x304C, 0x3001]"

definition msgWasFound :: jsstring where
  "msgWasFound = [0x304C, 0x898B, 0x3064, 0x304B, 0x308A, 0x307E, 0x3057, 0x305F, 0x3002]"

definition msgTokenLabel :: jsstring where
  "msgTokenLabel = [0x20, 0x30C8, 0x30FC, 0x30AF, 0x30F3, 0x3A, 0x20]"

definition msgTrailingTokens :: jsstring where
  "msgTrailingTokens =
     [0x89E3, 0x6790, 0x304C, 0x5B8C, 0x4E86, 0x3057, 0x307E, 0x3057, 0x305F, 0x304C,
      0x3001, 0x672A, 0x51E6, 0x7406, 0x306E, 0x30C8, 0x30FC, 0x30AF, 0x30F3, 0x304C,
      0x6B8B, 0x3063, 0x3066, 0x3044, 0x307E, 0x3059, 0x3A, 0x20]"

definition msgExpressionRequired :: jsstring where
  "msgExpressionRequired =
     [0x4E88, 0x671F, 0x305B, 0x306C, 0x5165, 0x529B, 0x306E, 0x7D42, 0x308F, 0x308A,
      0x3067, 0x3059, 0x3002, 0x5F0F, 0x304C, 0x5FC5, 0x8981, 0x3067, 0x3059, 0x3002]"

definition msgUnexpectedToken :: jsstring where
  "msgUnexpectedToken =
     [0x4E88, 0x671F, 0x305B, 0x306C, 0x30C8, 0x30FC, 0x30AF, 0x30F3, 0x3067, 0x3059,
      0x3A, 0x20]"

definition msgFracNumerator :: jsstring where
  "msgFracNumerator =
     0x5C # js ''frac'' @
     [0x20, 0x30B3, 0x30DE, 0x30F3, 0x30C9, 0x306E, 0x5206, 0x5B50, 0x304C, 0x898B,
      0x3064, 0x304B, 0x308A, 0x307E, 0x305B, 0x3093, 0x3002, 0x7B, 0x5F0F, 0x7D, 0x20,
      0x306E, 0x5F62, 0x5F0F, 0x304C, 0x5FC5, 0x8981, 0x3067, 0x3059, 0x3002]"

definition msgFracDenominator :: jsstring where
  "msgFracDenominator =
     0x5C # js ''frac'' @
     [0x20, 0x30B3, 0x30DE, 0x30F3, 0x30C9, 0x306E, 0x5206, 0x6BCD, 0x304C, 0x898B,
      0x3064, 0x304B, 0x308A, 0x307E, 0x305B, 0x3093, 0x3002, 0x7B, 0x5F0F, 0x7D, 0x20,
      0x306E, 0x5F62, 0x5F0F, 0x304C, 0x5FC5, 0x8981, 0x3067, 0x3059, 0x3002]"

definition msgMatrixUnexpected :: jsstring where
  "msgMatrixUnexpected =
     [0x884C, 0x5217, 0x5185, 0x3067, 0x4E88, 0x671F, 0x305B, 0x306C, 0x30C8, 0x30FC,
      0x30AF, 0x30F3, 0x3067, 0x3059, 0x3A, 0x20]"

subsection \<open>Parser state and token access\<close>

record parser =
  tokens :: "token list"
  position :: nat
  errors :: "jsstring list"

definition newParser :: "token list \<Rightarrow> parser" where
  "newParser ts = \<lparr>tokens = ts, position = 0, errors = []\<rparr>"

definition peek :: "parser \<Rightarrow> nat \<Rightarrow> token option" where
  "peek P offset =
     (let pos = position P + offset
      in if pos \<ge> length (tokens P) then None else Some (tokens P ! pos))"

text \<open>The expression \<^verbatim>\<open>this.peek()?.type\<close>.\<close>

definition peekType :: "parser \<Rightarrow> tokentype option" where
  "peekType P = map_option tok_type (peek P 0)"

definition addError :: "parser \<Rightarrow> jsstring \<Rightarrow> parser" where
  "addError P message =
     (let errorMsg =
        (case peek P 0 of
           Some token \<Rightarrow>
             message @ msgTokenLabel @ tok_value token @ js '' ('' @ typeName (tok_type token)
               @ js '')''
         | None \<Rightarrow> message)
      in P\<lparr>errors := errors P @ [errorMsg]\<rparr>)"

text \<open>
  \<^verbatim>\<open>consume(expectedType)\<close>; the argument is optional, and a template literal prints
  a missing one as "undefined".  The result is the token, or \<^verbatim>\<open>null\<close>.
\<close>

definition consume :: "parser \<Rightarrow> tokentype option \<Rightarrow> token option \<times> parser" where
  "consume P expectedType =
     (case peek P 0 of
        None \<Rightarrow>
          (None,
           addError P
             (msgUnexpectedEnd
                @ (case expectedType of None \<Rightarrow> js ''undefined'' | Some e \<Rightarrow> typeName e)
                @ msgIsRequired))
      | Some token \<Rightarrow>
          (case expectedType of
             Some e \<Rightarrow>
               if tok_type token \<noteq> e
               then
                 (None,
                  addError P (typeName e @ msgIsRequiredBut @ typeName (tok_type token)
                    @ msgWasFound))
               else (Some token, P\<lparr>position := position P + 1\<rparr>)
           | None \<Rightarrow> (Some token, P\<lparr>position := position P + 1\<rparr>)))"

subsection \<open>The productions\<close>

text \<open>
  A parsing method returns a node with the state it leaves, or throws.  The only
  exception raised inside the productions is the TypeError of reading a property
  of \<^verbatim>\<open>null\<close>: \<^verbatim>\<open>node.type\<close> in \<^verbatim>\<open>parseAssignment\<close>, and \<^verbatim>\<open>this.consume().value\<close>
  were \<^verbatim>\<open>consume\<close> to return \<^verbatim>\<open>null\<close>.  \<open>Throw\<close> carries the state at that moment.
\<close>

datatype 'a result = Return 'a parser | Throw parser

text \<open>
  The expression \<^verbatim>\<open>this.consume().value\<close>: the text of the consumed token, or the
  TypeError when \<^verbatim>\<open>consume\<close> returned \<^verbatim>\<open>null\<close>.
\<close>

definition consumeValue :: "parser \<Rightarrow> jsstring result" where
  "consumeValue P =
     (case consume P None of
        (None, P1) \<Rightarrow> Throw P1
      | (Some token, P1) \<Rightarrow> Return (tok_value token) P1)"

text \<open>
  Each \<^verbatim>\<open>while\<close> loop is a function of its own, on the locals the loop updates.
  \<open>parseFunctionCall\<close> is the part of the Command branch of \<^verbatim>\<open>parsePrimary\<close> that
  reads the argument list of a command other than \<^verbatim>\<open>\frac\<close>.
\<close>

function parsePrimary :: "parser \<Rightarrow> ast result"
  and parseFunctionCall :: "jsstring \<Rightarrow> parser \<Rightarrow> ast result"
  and parseBraceArgs :: "ast list \<Rightarrow> parser \<Rightarrow> ast list result"
  and parseCommaArgs :: "ast list \<Rightarrow> parser \<Rightarrow> ast list result"
  and parseArrayExpression :: "parser \<Rightarrow> ast result"
  and parseFracCommand :: "parser \<Rightarrow> ast result"
  and parseMatrixExpression :: "parser \<Rightarrow> ast result"
  and parseMatrix_loop :: "ast list list \<Rightarrow> ast list \<Rightarrow> parser \<Rightarrow> (ast list list \<times> ast list) result"
  and parseExponent :: "parser \<Rightarrow> ast result"
  and parseExponent_loop :: "ast \<Rightarrow> parser \<Rightarrow> ast result"
  and parseTerm :: "parser \<Rightarrow> ast result"
  and parseTerm_loop :: "ast \<Rightarrow> parser \<Rightarrow> ast result"
  and parseAdditive :: "parser \<Rightarrow> ast result"
  and parseAdditive_loop :: "ast \<Rightarrow> parser \<Rightarrow> ast result"
  and parseComparison :: "parser \<Rightarrow> ast result"
  and parseComparison_loop :: "ast \<Rightarrow> parser \<Rightarrow> ast result"
  and parseAssignment :: "parser \<Rightarrow> ast result"
  and parseExpression :: "parser \<Rightarrow> ast result"
where
  "parsePrimary P =
     (case peek P 0 of
        None \<Rightarrow> Return Null (addError P msgExpressionRequired)
      | Some token \<Rightarrow>
          if tok_type token = Number
          then Return (NumberLiteral (tok_value token)) (snd (consume P None))
          else if tok_type token = IdentifierT
          then Return (Identifier (tok_value token)) (snd (consume P None))
          else if tok_type token = Command
          then
            (if tok_value token = 0x5C # js ''frac''
             then parseFracCommand (snd (consume P None))
             else parseFunctionCall (tok_value token) (snd (consume P None)))
          else if tok_type token = LParen
          then
            (case parseExpression (snd (consume P (Some LParen))) of
               Throw Q \<Rightarrow> Throw Q
             | Return expr P1 \<Rightarrow>
                 Return (ParenthesizedExpression expr) (snd (consume P1 (Some RParen))))
          else if tok_type token = LBracket then parseArrayExpression P
          else if tok_type token = LBrace then parseMatrixExpression P
          else if tok_type token = Plus \<or> tok_type token = Minus
          then
            (case consumeValue P of
               Throw Q \<Rightarrow> Throw Q
             | Return operator P1 \<Rightarrow>
                 (case parsePrimary P1 of
                    Throw Q \<Rightarrow> Throw Q
                  | Return operand P2 \<Rightarrow> Return (UnaryExpression operator operand) P2))
          else
            Return Null
              (snd (consume (addError P (msgUnexpectedToken @ typeName (tok_type token))) None)))"
| "parseFunctionCall funcName P =
     (if peekType P = Some LBrace
      then
        (case parseExpression (snd (consume P (Some LBrace))) of
           Throw Q \<Rightarrow> Throw Q
         | Return a P1 \<Rightarrow>
             (case parseBraceArgs [a] (snd (consume P1 (Some RBrace))) of
                Throw Q \<Rightarrow> Throw Q
              | Return args P2 \<Rightarrow> Return (FunctionCall funcName args) P2))
      else if peekType P = Some LParen
      then
        (let P1 = snd (consume P (Some LParen))
         in if peekType P1 \<noteq> Some RParen
            then
              (case parseExpression P1 of
                 Throw Q \<Rightarrow> Throw Q
               | Return a P2 \<Rightarrow>
                   (case parseCommaArgs [a] P2 of
                      Throw Q \<Rightarrow> Throw Q
                    | Return args P3 \<Rightarrow>
                        Return (FunctionCall funcName args) (snd (consume P3 (Some RParen)))))
            else Return (FunctionCall funcName []) (snd (consume P1 (Some RParen))))
      else
        (case parsePrimary P of
           Throw Q \<Rightarrow> Throw Q
         | Return a P1 \<Rightarrow> Return (FunctionCall funcName [a]) P1))"
| "parseBraceArgs args P =
     (if peekType P = Some LBrace
      then
        (case parseExpression (snd (consume P (Some LBrace))) of
           Throw Q \<Rightarrow> Throw Q
         | Return a P1 \<Rightarrow> parseBraceArgs (args @ [a]) (snd (consume P1 (Some RBrace))))
      else Return args P)"
| "parseCommaArgs args P =
     (if peekType P = Some Comma
      then
        (case parseExpression (snd (consume P (Some Comma))) of
           Throw Q \<Rightarrow> Throw Q
         | Return a P1 \<Rightarrow> parseCommaArgs (args @ [a]) P1)
      else Return args P)"
| "parseArrayExpression P =
     (let P1 = snd (consume P (Some LBracket))
      in if peekType P1 = Some RBracket
         then Return (ArrayExpression []) (snd (consume P1 (Some RBracket)))
         else
           (case parseExpression P1 of
              Throw Q \<Rightarrow> Throw Q
            | Return a P2 \<Rightarrow>
                (case parseCommaArgs [a] P2 of
                   Throw Q \<Rightarrow> Throw Q
                 | Return elements P3 \<Rightarrow>
                     Return (ArrayExpression elements) (snd (consume P3 (Some RBracket))))))"
| "parseFracCommand P =
     (if peekType P = Some LBrace
      then
        (case parseExpression (snd (consume P (Some LBrace))) of
           Throw Q \<Rightarrow> Throw Q
         | Return numerator P1 \<Rightarrow>
             (let P2 = snd (consume P1 (Some RBrace))
              in if peekType P2 = Some LBrace
                 then
                   (case parseExpression (snd (consume P2 (Some LBrace))) of
                      Throw Q \<Rightarrow> Throw Q
                    | Return denominator P3 \<Rightarrow>
                        Return (FunctionCall (0x5C # js ''frac'') [numerator, denominator])
                          (snd (consume P3 (Some RBrace))))
                 else Return Null (addError P2 msgFracDenominator)))
      else Return Null (addError P msgFracNumerator))"
| "parseMatrixExpression P =
     (let P1 = snd (consume P (Some LBrace))
      in if peekType P1 = Some RBrace
         then Return (MatrixExpression []) (snd (consume P1 (Some RBrace)))
         else
           (case parseExpression P1 of
              Throw Q \<Rightarrow> Throw Q
            | Return a P2 \<Rightarrow>
                (case parseMatrix_loop [] [a] P2 of
                   Throw Q \<Rightarrow> Throw Q
                 | Return (rows, currentRow) P3 \<Rightarrow>
                     Return
                       (MatrixExpression
                          (if length currentRow > 0 then rows @ [currentRow] else rows))
                       (snd (consume P3 (Some RBrace))))))"
| "parseMatrix_loop rows currentRow P =
     (case peek P 0 of
        None \<Rightarrow> Return (rows, currentRow) P
      | Some t \<Rightarrow>
          if tok_type t \<noteq> RBrace
          then
            (if tok_type t = Comma
             then
               (case parseExpression (snd (consume P (Some Comma))) of
                  Throw Q \<Rightarrow> Throw Q
                | Return a P1 \<Rightarrow> parseMatrix_loop rows (currentRow @ [a]) P1)
             else if tok_type t = Semicolon
             then
               (case parseExpression (snd (consume P (Some Semicolon))) of
                  Throw Q \<Rightarrow> Throw Q
                | Return a P1 \<Rightarrow> parseMatrix_loop (rows @ [currentRow]) [a] P1)
             else
               parseMatrix_loop rows currentRow
                 (snd (consume (addError P (msgMatrixUnexpected @ typeName (tok_type t))) None)))
          else Return (rows, currentRow) P)"
| "parseExponent P =
     (case parsePrimary P of
        Throw Q \<Rightarrow> Throw Q
      | Return node P1 \<Rightarrow> parseExponent_loop node P1)"
| "parseExponent_loop node P =
     (if peekType P = Some Power
      then
        (case consumeValue P of
           Throw Q \<Rightarrow> Throw Q
         | Return operator P1 \<Rightarrow>
             (case parsePrimary P1 of
                Throw Q \<Rightarrow> Throw Q
              | Return right P2 \<Rightarrow>
                  parseExponent_loop (BinaryExpression operator node right) P2))
      else Return node P)"
| "parseTerm P =
     (case parseExponent P of
        Throw Q \<Rightarrow> Throw Q
      | Return node P1 \<Rightarrow> parseTerm_loop node P1)"
| "parseTerm_loop node P =
     (if peekType P = Some Multiply \<or> peekType P = Some Divide
      then
        (case consumeValue P of
           Throw Q \<Rightarrow> Throw Q
         | Return operator P1 \<Rightarrow>
             (case parseExponent P1 of
                Throw Q \<Rightarrow> Throw Q
              | Return right P2 \<Rightarrow>
                  parseTerm_loop (BinaryExpression operator node right) P2))
      else Return node P)"
| "parseAdditive P =
     (case parseTerm P of
        Throw Q \<Rightarrow> Throw Q
      | Return node P1 \<Rightarrow> parseAdditive_loop node P1)"
| "parseAdditive_loop node P =
     (if peekType P = Some Plus \<or> peekType P = Some Minus
      then
        (case consumeValue P of
           Throw Q \<Rightarrow> Throw Q
         | Return operator P1 \<Rightarrow>
             (case parseTerm P1 of
                Throw Q \<Rightarrow> Throw Q
              | Return right P2 \<Rightarrow>
                  parseAdditive_loop (BinaryExpression operator node right) P2))
      else Return node P)"
| "parseComparison P =
     (case parseAdditive P of
        Throw Q \<Rightarrow> Throw Q
      | Return node P1 \<Rightarrow> parseComparison_loop node P1)"
| "parseComparison_loop node P =
     (if peekType P = Some LessThan \<or> peekType P = Some GreaterThan
         \<or> peekType P = Some LessEqual \<or> peekType P = Some GreaterEqual
         \<or> peekType P = Some Equals \<or> peekType P = Some NotEqual
      then
        (case consumeValue P of
           Throw Q \<Rightarrow> Throw Q
         | Return operator P1 \<Rightarrow>
             (case parseAdditive P1 of
                Throw Q \<Rightarrow> Throw Q
              | Return right P2 \<Rightarrow>
                  parseComparison_loop (ComparisonExpression operator node right) P2))
      else Return node P)"
| "parseAssignment P =
     (case parseComparison P of
        Throw Q \<Rightarrow> Throw Q
      | Return node P1 \<Rightarrow>
          (case node of
             Null \<Rightarrow> Throw P1
           | Identifier v \<Rightarrow>
               if peekType P1 = Some Equals
               then
                 (case consumeValue P1 of
                    Throw Q \<Rightarrow> Throw Q
                  | Return operator P2 \<Rightarrow>
                      (case parseAssignment P2 of
                         Throw Q \<Rightarrow> Throw Q
                       | Return right P3 \<Rightarrow>
                           Return (AssignmentExpression operator node right) P3))
               else Return node P1
           | _ \<Rightarrow> Return node P1))"
| "parseExpression P = parseAssignment P"
  by pat_completeness auto

subsection \<open>Termination of the productions\<close>

text \<open>
  A production only moves the position forward, over the same tokens; this holds
  wherever the production is defined, and then shows that it is defined everywhere.
\<close>

fun resultState :: "'a result \<Rightarrow> parser" where
  "resultState (Return a P) = P"
| "resultState (Throw P) = P"

definition advanced :: "parser \<Rightarrow> parser \<Rightarrow> bool" where
  "advanced P P' \<longleftrightarrow> tokens P' = tokens P \<and> position P \<le> position P'"

lemma peek_addError [simp]: "peek (addError P m) n = peek P n"
  by (simp add: peek_def addError_def Let_def)

lemma peekType_addError [simp]: "peekType (addError P m) = peekType P"
  by (simp add: peekType_def)

lemma tokens_addError [simp]: "tokens (addError P m) = tokens P"
  by (simp add: addError_def Let_def)

lemma position_addError [simp]: "position (addError P m) = position P"
  by (simp add: addError_def Let_def)

lemma tokens_consume [simp]: "tokens (snd (consume P e)) = tokens P"
  by (auto simp: consume_def split: option.splits)

lemma position_consume_le: "position P \<le> position (snd (consume P e))"
  by (auto simp: consume_def split: option.splits)

lemma consume_SomeD:
  "consume P e = (Some t, Q) \<Longrightarrow>
     peek P 0 = Some t \<and> Q = P\<lparr>position := position P + 1\<rparr> \<and> (\<forall>x. e = Some x \<longrightarrow> tok_type t = x)"
  by (auto simp: consume_def split: option.splits if_splits)

lemma consume_None_Some:
  "peek P 0 = Some t \<Longrightarrow> consume P None = (Some t, P\<lparr>position := position P + 1\<rparr>)"
  by (simp add: consume_def)

lemma consume_expected:
  "peekType P = Some e \<Longrightarrow> consume P (Some e) = (peek P 0, P\<lparr>position := position P + 1\<rparr>)"
  by (auto simp: consume_def peekType_def split: option.splits)

lemma peek_Some_less: "peek P 0 = Some t \<Longrightarrow> position P < length (tokens P)"
  by (simp add: peek_def Let_def split: if_splits)

lemma peekType_Some_less: "peekType P = Some e \<Longrightarrow> position P < length (tokens P)"
  by (auto simp: peekType_def dest: peek_Some_less)

definition consumed :: "parser \<Rightarrow> tokentype option \<Rightarrow> nat" where
  "consumed P e = position (snd (consume P e)) - position P"

lemma position_consume: "position (snd (consume P e)) = position P + consumed P e"
  using position_consume_le [of P e] by (simp add: consumed_def)

lemma consumeValue_peek:
  "peek P 0 = Some t \<Longrightarrow> consumeValue P = Return (tok_value t) (P\<lparr>position := position P + 1\<rparr>)"
  by (simp add: consumeValue_def consume_def)

lemma consumeValue_ReturnD:
  "consumeValue P = Return v Q \<Longrightarrow>
     \<exists>t. peek P 0 = Some t \<and> v = tok_value t \<and> Q = P\<lparr>position := position P + 1\<rparr>"
  by (auto simp: consumeValue_def consume_def split: option.splits)

lemma consumeValue_ThrowD:
  "consumeValue P = Throw Q \<Longrightarrow> peek P 0 = None \<and> tokens Q = tokens P \<and> position Q = position P"
  by (auto simp: consumeValue_def consume_def split: option.splits)

lemmas advanced_simps = advanced_def position_consume

abbreviation parser_dom where
  "parser_dom \<equiv> parsePrimary_parseFunctionCall_parseBraceArgs_parseCommaArgs_parseArrayExpression_parseFracCommand_parseMatrixExpression_parseMatrix_loop_parseExponent_parseExponent_loop_parseTerm_parseTerm_loop_parseAdditive_parseAdditive_loop_parseComparison_parseComparison_loop_parseAssignment_parseExpression_dom"

lemma advanced_dom:
  "parser_dom (Inl (Inl (Inl (Inl P)))) \<Longrightarrow> advanced P (resultState (parsePrimary P))"
  "parser_dom (Inl (Inl (Inl (Inr (funcName, P))))) \<Longrightarrow>
     advanced P (resultState (parseFunctionCall funcName P))"
  "parser_dom (Inl (Inl (Inr (Inl (args, P))))) \<Longrightarrow>
     advanced P (resultState (parseBraceArgs args P))"
  "parser_dom (Inl (Inl (Inr (Inr (args, P))))) \<Longrightarrow>
     advanced P (resultState (parseCommaArgs args P))"
  "parser_dom (Inl (Inr (Inl (Inl P)))) \<Longrightarrow> advanced P (resultState (parseArrayExpression P))"
  "parser_dom (Inl (Inr (Inl (Inr P)))) \<Longrightarrow> advanced P (resultState (parseFracCommand P))"
  "parser_dom (Inl (Inr (Inr (Inl P)))) \<Longrightarrow> advanced P (resultState (parseMatrixExpression P))"
  "parser_dom (Inl (Inr (Inr (Inr (Inl (rows, currentRow, P)))))) \<Longrightarrow>
     advanced P (resultState (parseMatrix_loop rows currentRow P))"
  "parser_dom (Inl (Inr (Inr (Inr (Inr P))))) \<Longrightarrow> advanced P (resultState (parseExponent P))"
  "parser_dom (Inr (Inl (Inl (Inl (node, P))))) \<Longrightarrow>
     advanced P (resultState (parseExponent_loop node P))"
  "parser_dom (Inr (Inl (Inl (Inr P)))) \<Longrightarrow> advanced P (resultState (parseTerm P))"
  "parser_dom (Inr (Inl (Inr (Inl (node, P))))) \<Longrightarrow>
     advanced P (resultState (parseTerm_loop node P))"
  "parser_dom (Inr (Inl (Inr (Inr P)))) \<Longrightarrow> advanced P (resultState (parseAdditive P))"
  "parser_dom (Inr (Inr (Inl (Inl (node, P))))) \<Longrightarrow>
     advanced P (resultState (parseAdditive_loop node P))"
  "parser_dom (Inr (Inr (Inl (Inr P)))) \<Longrightarrow> advanced P (resultState (parseComparison P))"
  "parser_dom (Inr (Inr (Inr (Inl (node, P))))) \<Longrightarrow>
     advanced P (resultState (parseComparison_loop node P))"
  "parser_dom (Inr (Inr (Inr (Inr (Inl P))))) \<Longrightarrow> advanced P (resultState (parseAssignment P))"
  "parser_dom (Inr (Inr (Inr (Inr (Inr P))))) \<Longrightarrow> advanced P (resultState (parseExpression P))"
proof (induct rule: parsePrimary_parseFunctionCall_parseBraceArgs_parseCommaArgs_parseArrayExpression_parseFracCommand_parseMatrixExpression_parseMatrix_loop_parseExponent_parseExponent_loop_parseTerm_parseTerm_loop_parseAdditive_parseAdditive_loop_parseComparison_parseComparison_loop_parseAssignment_parseExpression.pinduct)
  case (1 P)
  note IH = 1(2-)
  show ?case
  proof (cases "peek P 0")
    case None
    then show ?thesis by (simp add: parsePrimary.psimps [OF 1(1)] advanced_simps)
  next
    case (Some token)
    note [simp] = parsePrimary.psimps [OF 1(1)] Some advanced_simps
    consider (number) "tok_type token = Number" | (ident) "tok_type token = IdentifierT"
      | (frac) "tok_type token = Command" "tok_value token = 0x5C # js ''frac''"
      | (call) "tok_type token = Command" "tok_value token \<noteq> 0x5C # js ''frac''"
      | (paren) "tok_type token = LParen" | (array) "tok_type token = LBracket"
      | (matrix) "tok_type token = LBrace"
      | (plus) "tok_type token = Plus" | (minus) "tok_type token = Minus"
      | (other) "tok_type token \<notin> {Number, IdentifierT, Command, LParen, LBracket, LBrace, Plus, Minus}"
      by auto
    then show ?thesis
    proof cases
      case number
      then show ?thesis by simp
    next
      case ident
      then show ?thesis by simp
    next
      case frac
      then show ?thesis using IH(1) [OF Some] by auto
    next
      case call
      then show ?thesis using IH(2) [OF Some] by auto
    next
      case paren
      then show ?thesis using IH(3) [OF Some] by (auto split: result.splits)
    next
      case array
      then show ?thesis using IH(4) [OF Some] by auto
    next
      case matrix
      then show ?thesis using IH(5) [OF Some] by auto
    next
      case plus
      then show ?thesis
        using IH(6) [OF Some] by (auto simp: consumeValue_peek split: result.splits)
    next
      case minus
      then show ?thesis
        using IH(6) [OF Some] by (auto simp: consumeValue_peek split: result.splits)
    next
      case other
      then show ?thesis by auto
    qed
  qed
next
  case (2 funcName P)
  note IH = 2(2-)
  note [simp] = parseFunctionCall.psimps [OF 2(1)] advanced_simps
  consider (brace) "peekType P = Some LBrace"
    | (paren) "peekType P = Some LParen" "peekType (snd (consume P (Some LParen))) \<noteq> Some RParen"
    | (empty) "peekType P = Some LParen" "peekType (snd (consume P (Some LParen))) = Some RParen"
    | (bare) "peekType P \<noteq> Some LBrace" "peekType P \<noteq> Some LParen"
    by auto
  then show ?case
  proof cases
    case brace
    then show ?thesis using IH(1,2) by (auto split: result.splits)
  next
    case paren
    then show ?thesis
      using IH(3) [OF _ _ refl] IH(4) [OF _ _ refl] by (auto simp: Let_def split: result.splits)
  next
    case empty
    then show ?thesis by (auto simp: Let_def)
  next
    case bare
    then show ?thesis using IH(5) by (auto split: result.splits)
  qed
next
  case (3 args P)
  then show ?case
    by (auto simp: parseBraceArgs.psimps advanced_simps split: result.splits)
next
  case (4 args P)
  then show ?case
    by (auto simp: parseCommaArgs.psimps advanced_simps split: result.splits)
next
  case (5 P)
  show ?case
    using 5(2) [OF refl] 5(3) [OF refl]
    by (auto simp: parseArrayExpression.psimps [OF 5(1)] advanced_simps Let_def
        split: result.splits)
next
  case (6 P)
  show ?case
    using 6(2) 6(3) [OF _ _ refl]
    by (auto simp: parseFracCommand.psimps [OF 6(1)] advanced_simps Let_def
        split: result.splits)
next
  case (7 P)
  show ?case
    using 7(2) [OF refl] 7(3) [OF refl]
    by (auto simp: parseMatrixExpression.psimps [OF 7(1)] advanced_simps Let_def
        split: result.splits)
next
  case (8 rows currentRow P)
  note IH = 8(2-)
  show ?case
  proof (cases "peek P 0")
    case None
    then show ?thesis by (simp add: parseMatrix_loop.psimps [OF 8(1)] advanced_simps)
  next
    case (Some t)
    note [simp] = parseMatrix_loop.psimps [OF 8(1)] Some advanced_simps
    consider (rbrace) "tok_type t = RBrace" | (comma) "tok_type t = Comma"
      | (semicolon) "tok_type t = Semicolon"
      | (other) "tok_type t \<notin> {RBrace, Comma, Semicolon}"
      by auto
    then show ?thesis
    proof cases
      case rbrace
      then show ?thesis by simp
    next
      case comma
      then show ?thesis
        using IH(1) [OF Some] IH(2) [OF Some] by (auto split: result.splits)
    next
      case semicolon
      then show ?thesis
        using IH(3) [OF Some] IH(4) [OF Some] by (auto split: result.splits)
    next
      case other
      then show ?thesis
        using IH(5) [OF Some] by auto
    qed
  qed
next
  case (9 P)
  then show ?case
    by (auto simp: parseExponent.psimps advanced_simps split: result.splits)
next
  case (10 node P)
  show ?case
  proof (cases "peekType P = Some Power")
    case False
    then show ?thesis by (simp add: parseExponent_loop.psimps [OF 10(1)] advanced_simps)
  next
    case True
    then obtain t where "peek P 0 = Some t"
      by (auto simp: peekType_def)
    then have cv: "consumeValue P = Return (tok_value t) (P\<lparr>position := position P + 1\<rparr>)"
      by (rule consumeValue_peek)
    show ?thesis
      using True 10(2) [OF True cv] 10(3) [OF True cv]
      by (auto simp: parseExponent_loop.psimps [OF 10(1)] cv advanced_simps split: result.splits)
  qed
next
  case (11 P)
  then show ?case
    by (auto simp: parseTerm.psimps advanced_simps split: result.splits)
next
  case (12 node P)
  show ?case
  proof (cases "peekType P = Some Multiply \<or> peekType P = Some Divide")
    case False
    then show ?thesis by (simp add: parseTerm_loop.psimps [OF 12(1)] advanced_simps)
  next
    case True
    then obtain t where "peek P 0 = Some t"
      by (auto simp: peekType_def)
    then have cv: "consumeValue P = Return (tok_value t) (P\<lparr>position := position P + 1\<rparr>)"
      by (rule consumeValue_peek)
    show ?thesis
      using True 12(2) [OF True cv] 12(3) [OF True cv]
      by (auto simp: parseTerm_loop.psimps [OF 12(1)] cv advanced_simps split: result.splits)
  qed
next
  case (13 P)
  then show ?case
    by (auto simp: parseAdditive.psimps advanced_simps split: result.splits)
next
  case (14 node P)
  show ?case
  proof (cases "peekType P = Some Plus \<or> peekType P = Some Minus")
    case False
    then show ?thesis by (simp add: parseAdditive_loop.psimps [OF 14(1)] advanced_simps)
  next
    case True
    then obtain t where "peek P 0 = Some t"
      by (auto simp: peekType_def)
    then have cv: "consumeValue P = Return (tok_value t) (P\<lparr>position := position P + 1\<rparr>)"
      by (rule consumeValue_peek)
    show ?thesis
      using True 14(2) [OF True cv] 14(3) [OF True cv]
      by (auto simp: parseAdditive_loop.psimps [OF 14(1)] cv advanced_simps split: result.splits)
  qed
next
  case (15 P)
  then show ?case
    by (auto simp: parseComparison.psimps advanced_simps split: result.splits)
next
  case (16 node P)
  show ?case
  proof (cases "peekType P = Some LessThan \<or> peekType P = Some GreaterThan
         \<or> peekType P = Some LessEqual \<or> peekType P = Some GreaterEqual
         \<or> peekType P = Some Equals \<or> peekType P = Some NotEqual")
    case False
    then show ?thesis by (simp add: parseComparison_loop.psimps [OF 16(1)] advanced_simps)
  next
    case True
    then obtain t where "peek P 0 = Some t"
      by (auto simp: peekType_def)
    then have cv: "consumeValue P = Return (tok_value t) (P\<lparr>position := position P + 1\<rparr>)"
      by (rule consumeValue_peek)
    show ?thesis
      using True 16(2) [OF True cv] 16(3) [OF True cv]
      by (auto simp: parseComparison_loop.psimps [OF 16(1)] cv advanced_simps split: result.splits)
  qed
next
  case (17 P)
  show ?case
  proof (cases "parseComparison P")
    case (Throw Q)
    then show ?thesis
      using 17(2) by (simp add: parseAssignment.psimps [OF 17(1)])
  next
    case (Return node P1)
    note adv = 17(2) [unfolded Return, simplified]
    show ?thesis
    proof (cases "\<exists>v. node = Identifier v \<and> peekType P1 = Some Equals")
      case False
      then show ?thesis
        using adv Return
        by (auto simp: parseAssignment.psimps [OF 17(1)] split: ast.splits)
    next
      case True
      then obtain v t where v: "node = Identifier v" "peekType P1 = Some Equals"
        and "peek P1 0 = Some t"
        by (auto simp: peekType_def)
      then have cv: "consumeValue P1 = Return (tok_value t) (P1\<lparr>position := position P1 + 1\<rparr>)"
        by (simp add: consumeValue_peek)
      show ?thesis
        using adv Return v 17(3) [OF Return v cv]
        by (auto simp: parseAssignment.psimps [OF 17(1)] cv advanced_simps split: result.splits)
    qed
  qed
next
  case (18 P)
  then show ?case
    by (simp add: parseExpression.psimps)
qed


text \<open>
  The measure of a call: the tokens left, then the place of the production in the
  chain of productions that call each other on the same state.  The array and
  matrix productions are entered on their opening bracket, which they consume;
  entered anywhere else they would start by calling \<^verbatim>\<open>parseExpression\<close> on the
  same state, so there they rank above it.
\<close>

definition tokensLeft :: "parser \<Rightarrow> nat" where
  "tokensLeft P = length (tokens P) - position P"

definition bracketRank :: "tokentype \<Rightarrow> parser \<Rightarrow> nat" where
  "bracketRank t P = (if peekType P = Some t then 0 else 9)"

lemma peekType_peek: "peek P 0 = Some t \<Longrightarrow> peekType P = Some (tok_type t)"
  by (simp add: peekType_def)

lemma tokensLeft_addError [simp]: "tokensLeft (addError P m) = tokensLeft P"
  by (simp add: tokensLeft_def)

lemma tokensLeft_consume: "tokensLeft (snd (consume P e)) = tokensLeft P - consumed P e"
  by (simp add: tokensLeft_def position_consume)

lemma consumed_addError [simp]: "consumed (addError P m) e = consumed P e"
  by (auto simp: consumed_def consume_def split: option.splits)

lemma consumed_expected: "peekType P = Some e \<Longrightarrow> consumed P (Some e) = 1"
  by (simp add: consumed_def consume_expected)

lemma consumed_None: "peek P 0 = Some t \<Longrightarrow> consumed P None = 1"
  by (simp add: consumed_def consume_None_Some)

lemma tokensLeft_peekType:
  "peekType P = Some e \<Longrightarrow> consumed P (Some e) = 1 \<and> 0 < tokensLeft P"
  by (frule peekType_Some_less) (simp add: tokensLeft_def consumed_expected)

lemma tokensLeft_peek:
  "peek P 0 = Some t \<Longrightarrow>
     consumed P None = 1 \<and> consumed P (Some (tok_type t)) = 1 \<and> 0 < tokensLeft P"
  by (frule peek_Some_less)
    (simp add: tokensLeft_def consumed_None consumed_expected peekType_peek)

lemma tokensLeft_consumeValue:
  "consumeValue P = Return v Q \<Longrightarrow> tokensLeft Q < tokensLeft P"
  by (auto simp: tokensLeft_def dest!: consumeValue_ReturnD dest: peek_Some_less)

lemma tokensLeft_advanced:
  "advanced P (resultState r) \<Longrightarrow> tokensLeft (resultState r) \<le> tokensLeft P"
  by (auto simp: advanced_def tokensLeft_def)

lemmas tokensLeft_dom =
  advanced_dom(1) [THEN tokensLeft_advanced] advanced_dom(9) [THEN tokensLeft_advanced]
  advanced_dom(11) [THEN tokensLeft_advanced] advanced_dom(13) [THEN tokensLeft_advanced]
  advanced_dom(15) [THEN tokensLeft_advanced] advanced_dom(18) [THEN tokensLeft_advanced]

lemmas tokensLeft_simps = peekType_peek bracketRank_def

lemmas tokensLeft_dests = tokensLeft_dom tokensLeft_consumeValue tokensLeft_peekType tokensLeft_peek

termination parsePrimary
  apply (relation "inv_image (less_than <*lex*> less_than)
    (case_sum
      (case_sum
        (case_sum
          (case_sum (\<lambda>P. (tokensLeft P, 1)) (\<lambda>(funcName, P). (tokensLeft P, 2)))
          (case_sum (\<lambda>(args, P). (tokensLeft P, 0)) (\<lambda>(args, P). (tokensLeft P, 0))))
        (case_sum
          (case_sum (\<lambda>P. (tokensLeft P, bracketRank LBracket P)) (\<lambda>P. (tokensLeft P, 0)))
          (case_sum (\<lambda>P. (tokensLeft P, bracketRank LBrace P))
            (case_sum (\<lambda>(rows, currentRow, P). (tokensLeft P, 0)) (\<lambda>P. (tokensLeft P, 3))))))
      (case_sum
        (case_sum
          (case_sum (\<lambda>(node, P). (tokensLeft P, 0)) (\<lambda>P. (tokensLeft P, 4)))
          (case_sum (\<lambda>(node, P). (tokensLeft P, 0)) (\<lambda>P. (tokensLeft P, 5))))
        (case_sum
          (case_sum (\<lambda>(node, P). (tokensLeft P, 0)) (\<lambda>P. (tokensLeft P, 6)))
          (case_sum (\<lambda>(node, P). (tokensLeft P, 0))
            (case_sum (\<lambda>P. (tokensLeft P, 7)) (\<lambda>P. (tokensLeft P, 8)))))))")
    apply simp
   apply (simp_all add: tokensLeft_simps)
   apply (auto simp: tokensLeft_consume dest!: tokensLeft_dests)
  done


declare parsePrimary.simps [simp del] parseFunctionCall.simps [simp del]
  parseBraceArgs.simps [simp del] parseCommaArgs.simps [simp del]
  parseArrayExpression.simps [simp del] parseFracCommand.simps [simp del]
  parseMatrixExpression.simps [simp del] parseMatrix_loop.simps [simp del]
  parseExponent.simps [simp del] parseExponent_loop.simps [simp del]
  parseTerm.simps [simp del] parseTerm_loop.simps [simp del]
  parseAdditive.simps [simp del] parseAdditive_loop.simps [simp del]
  parseComparison.simps [simp del] parseComparison_loop.simps [simp del]
  parseAssignment.simps [simp del] parseExpression.simps [simp del]

subsection \<open>The entry point\<close>

text \<open>
  What \<^verbatim>\<open>parse\<close> throws: an \<^verbatim>\<open>Error\<close> whose message is the diagnostics joined
  by a line feed, or the TypeError itself when no diagnostic was recorded.
\<close>

datatype exn = Error jsstring | TypeError

definition parser_parse :: "parser \<Rightarrow> exn + ast" where
  "parser_parse P =
     (case parseExpression P of
        Throw Q \<Rightarrow>
          if length (errors Q) > 0 then Inl (Error (join [0x0A] (errors Q))) else Inl TypeError
      | Return result P1 \<Rightarrow>
          (let P2 =
             (if position P1 < length (tokens P1)
              then
                addError P1
                  (msgTrailingTokens
                     @ join (js '' '') (map tok_value (drop (position P1) (tokens P1))))
              else P1)
           in if length (errors P2) > 0 then Inl (Error (join [0x0A] (errors P2)))
              else Inr result))"

definition parse :: "token list \<Rightarrow> exn + ast" where
  "parse ts = parser_parse (newParser ts)"


section \<open>The canonicalizer (evaluateExpressionToLatex.js)\<close>

subsection \<open>Operator precedence\<close>

text \<open>
  \<^verbatim>\<open>precedence[operator] || 0\<close> looks the operator up in an object literal.  A key
  the literal does not have is still found when \<^verbatim>\<open>Object.prototype\<close> has it, and
  then the value is that inherited member, an object: it is truthy, compares
  neither greater nor smaller than a number, and is identical only to itself.
  \<open>Inherited\<close> is such a value, named by its key.
\<close>

datatype precedence = Prec nat | Inherited jsstring

definition objectPrototypeKeys :: "jsstring list" where
  "objectPrototypeKeys =
     [js ''constructor'', js ''hasOwnProperty'', js ''isPrototypeOf'',
      js ''propertyIsEnumerable'', js ''toLocaleString'', js ''toString'', js ''valueOf'',
      js ''__proto__'', js ''__defineGetter__'', js ''__defineSetter__'',
      js ''__lookupGetter__'', js ''__lookupSetter__'']"

text \<open>The argument is \<open>None\<close> for \<^verbatim>\<open>undefined\<close>, which is no key of either object.\<close>

definition getOperatorPrecedence :: "jsstring option \<Rightarrow> precedence" where
  "getOperatorPrecedence operator =
     (case operator of
        None \<Rightarrow> Prec 0
      | Some op \<Rightarrow>
          if op = js ''='' then Prec 1
          else if op \<in> set [js ''<'', js ''>'', js ''<='', js ''>='', js ''!=''] then Prec 2
          else if op = js ''+'' \<or> op = js ''-'' then Prec 3
          else if op = js ''*'' \<or> op = js ''/'' then Prec 4
          else if op = js ''^'' then Prec 5
          else if op \<in> set objectPrototypeKeys then Inherited op
          else Prec 0)"

text \<open>
  The string form of an inherited member, which a comparison converts it to: the
  members are native functions, printed with their names (the member
  \<^verbatim>\<open>constructor\<close> is the function \<^verbatim>\<open>Object\<close>), but for \<^verbatim>\<open>__proto__\<close>, which is the
  object \<^verbatim>\<open>Object.prototype\<close> itself.  Engines differ in the white space after the
  parameter list, which no comparison of two of these texts reaches: they differ
  within the names.
\<close>

definition stringForm :: "jsstring \<Rightarrow> jsstring" where
  "stringForm key =
     (if key = js ''__proto__'' then js ''[object Object]''
      else js ''function '' @ (if key = js ''constructor'' then js ''Object'' else key)
             @ js ''() { [native code] }'')"

text \<open>\<^verbatim>\<open>a < b\<close> on two strings: the order of their code units.\<close>

fun codeUnitLess :: "jsstring \<Rightarrow> jsstring \<Rightarrow> bool" where
  "codeUnitLess [] [] = False"
| "codeUnitLess [] (y # ys) = True"
| "codeUnitLess (x # xs) [] = False"
| "codeUnitLess (x # xs) (y # ys) = (x < y \<or> (x = y \<and> codeUnitLess xs ys))"

text \<open>
  \<^verbatim>\<open>a > b\<close> on two such values.  Two inherited members are compared as their
  string forms; against a number, the string form of an inherited member converts
  to NaN, and the comparison is false.
\<close>

fun precGreater :: "precedence \<Rightarrow> precedence \<Rightarrow> bool" where
  "precGreater (Prec a) (Prec b) = (a > b)"
| "precGreater (Inherited a) (Inherited b) = codeUnitLess (stringForm b) (stringForm a)"
| "precGreater _ _ = False"

text \<open>The field \<^verbatim>\<open>operator\<close> of a node, \<open>None\<close> where the node has none.\<close>

fun operatorOf :: "ast \<Rightarrow> jsstring option" where
  "operatorOf (BinaryExpression operator l r) = Some operator"
| "operatorOf (UnaryExpression operator operand) = Some operator"
| "operatorOf (ComparisonExpression operator l r) = Some operator"
| "operatorOf (AssignmentExpression operator l r) = Some operator"
| "operatorOf _ = None"

text \<open>The argument \<^verbatim>\<open>position\<close>, which is \<^verbatim>\<open>'left'\<close> or \<^verbatim>\<open>'right'\<close>.\<close>

datatype side = LeftSide | RightSide

definition needsParentheses :: "ast \<Rightarrow> ast \<Rightarrow> side \<Rightarrow> bool" where
  "needsParentheses childNode parentNode pos =
     (case childNode of
        BinaryExpression childOperator l r \<Rightarrow>
          (let parentPrecedence = getOperatorPrecedence (operatorOf parentNode);
               childPrecedence = getOperatorPrecedence (Some childOperator)
           in if precGreater parentPrecedence childPrecedence then True
              else if parentPrecedence = childPrecedence
              then
                (if operatorOf parentNode = Some (js ''^'')
                 then pos = RightSide \<and> childOperator = js ''^''
                 else pos = RightSide)
              else False)
      | _ \<Rightarrow> False)"

fun needsParenthesesForUnary :: "ast \<Rightarrow> bool" where
  "needsParenthesesForUnary (BinaryExpression operator l r) = True"
| "needsParenthesesForUnary (ComparisonExpression operator l r) = True"
| "needsParenthesesForUnary (AssignmentExpression operator l r) = True"
| "needsParenthesesForUnary _ = False"

subsection \<open>Rendering\<close>

text \<open>\<^verbatim>\<open>s.replace('\\', '')\<close> removes the first backslash of \<open>s\<close>, wherever it is.\<close>

definition stripBackslash :: "jsstring \<Rightarrow> jsstring" where
  "stripBackslash s = remove1 0x5C s"

lemma size_nth_estimation [termination_simp]:
  fixes xs :: "ast list"
  shows "i < length xs \<Longrightarrow> size (xs ! i) < Suc (size_list size xs)"
  using size_list_estimation' [of "xs ! i" xs "size (xs ! i)" size]
  by (simp add: less_Suc_eq_le)

text \<open>
  \<^verbatim>\<open>astToString\<close> of evaluateExpressionToLatex.js.  The three identifiers it
  replaces are the Greek small letters pi (U+03C0), tau (U+03C4) and phi (U+03C6).
\<close>

fun astToString :: "ast \<Rightarrow> jsstring" where
  "astToString Null = []"
| "astToString (NumberLiteral v) = v"
| "astToString (Identifier v) =
     (if v = [0x3C0] then js ''pi''
      else if v = [0x3C4] then js ''2*pi''
      else if v = [0x3C6] then js ''(1+sqrt(5))/2''
      else v)"
| "astToString (BinaryExpression operator l r) =
     (let left = astToString l;
          right = astToString r;
          needsParensLeft = needsParentheses l (BinaryExpression operator l r) LeftSide;
          needsParensRight = needsParentheses r (BinaryExpression operator l r) RightSide;
          leftStr = (if needsParensLeft then js ''('' @ left @ js '')'' else left);
          rightStr = (if needsParensRight then js ''('' @ right @ js '')'' else right)
      in leftStr @ operator @ rightStr)"
| "astToString (UnaryExpression operator operand) =
     operator
       @ (if needsParenthesesForUnary operand then js ''('' @ astToString operand @ js '')''
          else astToString operand)"
| "astToString (FunctionCall name arguments) =
     (if name = 0x5C # js ''frac'' \<and> length arguments = 2
      then js ''('' @ astToString (arguments ! 0) @ js '')/('' @ astToString (arguments ! 1)
             @ js '')''
      else stripBackslash name @ js ''('' @ join (js '','') (map astToString arguments)
             @ js '')'')"
| "astToString (ParenthesizedExpression expression) =
     js ''('' @ astToString expression @ js '')''"
| "astToString (ArrayExpression elements) =
     js ''['' @ join (js '','') (map astToString elements) @ js '']''"
| "astToString (MatrixExpression rows) =
     js ''matrix(['' @
       join (js '','')
         (map (\<lambda>row. js ''['' @ join (js '','') (map astToString row) @ js '']'') rows)
       @ js ''])''"
| "astToString (ComparisonExpression operator l r) =
     astToString l @ operator @ astToString r"
| "astToString (AssignmentExpression operator l r) =
     astToString l @ js ''='' @ astToString r"

text \<open>
  \<^verbatim>\<open>astToString\<close> of the second file (src/unnamed/part_000).  It differs in the
  \<^verbatim>\<open>\frac\<close> case, where it asks the nerdamer library, which is not part of this
  repository, to simplify the rendered fraction.  \<open>nerdamer e\<close> is the text
  \<^verbatim>\<open>nerdamer(e).expand().simplify().text('fractions')\<close>, or \<open>None\<close> when that
  expression throws, which the \<^verbatim>\<open>catch\<close> turns into the unsimplified fraction.
\<close>

fun astToString_part000 :: "(jsstring \<Rightarrow> jsstring option) \<Rightarrow> ast \<Rightarrow> jsstring" where
  "astToString_part000 nerdamer Null = []"
| "astToString_part000 nerdamer (NumberLiteral v) = v"
| "astToString_part000 nerdamer (Identifier v) =
     (if v = [0x3C0] then js ''pi''
      else if v = [0x3C4] then js ''2*pi''
      else if v = [0x3C6] then js ''(1+sqrt(5))/2''
      else v)"
| "astToString_part000 nerdamer (BinaryExpression operator l r) =
     (let left = astToString_part000 nerdamer l;
          right = astToString_part000 nerdamer r;
          needsParensLeft = needsParentheses l (BinaryExpression operator l r) LeftSide;
          needsParensRight = needsParentheses r (BinaryExpression operator l r) RightSide;
          leftStr = (if needsParensLeft then js ''('' @ left @ js '')'' else left);
          rightStr = (if needsParensRight then js ''('' @ right @ js '')'' else right)
      in leftStr @ operator @ rightStr)"
| "astToString_part000 nerdamer (UnaryExpression operator operand) =
     operator
       @ (if needsParenthesesForUnary operand
          then js ''('' @ astToString_part000 nerdamer operand @ js '')''
          else astToString_part000 nerdamer operand)"
| "astToString_part000 nerdamer (FunctionCall name arguments) =
     (if name = 0x5C # js ''frac'' \<and> length arguments = 2
      then
        (let numerator = astToString_part000 nerdamer (arguments ! 0);
             denominator = astToString_part000 nerdamer (arguments ! 1);
             expr = js ''('' @ numerator @ js '')/('' @ denominator @ js '')''
         in case nerdamer expr of
              Some simplified \<Rightarrow> simplified
            | None \<Rightarrow> js ''('' @ numerator @ js '')/('' @ denominator @ js '')'')
      else stripBackslash name @ js ''(''
             @ join (js '','') (map (astToString_part000 nerdamer) arguments) @ js '')'')"
| "astToString_part000 nerdamer (ParenthesizedExpression expression) =
     js ''('' @ astToString_part000 nerdamer expression @ js '')''"
| "astToString_part000 nerdamer (ArrayExpression elements) =
     js ''['' @ join (js '','') (map (astToString_part000 nerdamer) elements) @ js '']''"
| "astToString_part000 nerdamer (MatrixExpression rows) =
     js ''matrix(['' @
       join (js '','')
         (map (\<lambda>row. js ''['' @ join (js '','') (map (astToString_part000 nerdamer) row)
                 @ js '']'') rows)
       @ js ''])''"
| "astToString_part000 nerdamer (ComparisonExpression operator l r) =
     astToString_part000 nerdamer l @ operator @ astToString_part000 nerdamer r"
| "astToString_part000 nerdamer (AssignmentExpression operator l r) =
     astToString_part000 nerdamer l @ js ''='' @ astToString_part000 nerdamer r"

text \<open>
  The texts that \<^verbatim>\<open>astToString\<close> of src/unnamed/part_000 passes to nerdamer while it
  renders a node, in the order of the calls: one for each FunctionCall named \frac
  with two arguments, after the calls made for its two arguments.
\<close>

fun nerdamerCalls :: "(jsstring \<Rightarrow> jsstring option) \<Rightarrow> ast \<Rightarrow> jsstring list" where
  "nerdamerCalls nerdamer Null = []"
| "nerdamerCalls nerdamer (NumberLiteral v) = []"
| "nerdamerCalls nerdamer (Identifier v) = []"
| "nerdamerCalls nerdamer (BinaryExpression operator l r) =
     nerdamerCalls nerdamer l @ nerdamerCalls nerdamer r"
| "nerdamerCalls nerdamer (UnaryExpression operator operand) = nerdamerCalls nerdamer operand"
| "nerdamerCalls nerdamer (FunctionCall name arguments) =
     (if name = 0x5C # js ''frac'' \<and> length arguments = 2
      then
        nerdamerCalls nerdamer (arguments ! 0) @ nerdamerCalls nerdamer (arguments ! 1)
          @ [js ''('' @ astToString_part000 nerdamer (arguments ! 0) @ js '')/(''
               @ astToString_part000 nerdamer (arguments ! 1) @ js '')'']
      else concat (map (nerdamerCalls nerdamer) arguments))"
| "nerdamerCalls nerdamer (ParenthesizedExpression expression) =
     nerdamerCalls nerdamer expression"
| "nerdamerCalls nerdamer (ArrayExpression elements) =
     concat (map (nerdamerCalls nerdamer) elements)"
| "nerdamerCalls nerdamer (MatrixExpression rows) =
     concat (map (\<lambda>row. concat (map (nerdamerCalls nerdamer) row)) rows)"
| "nerdamerCalls nerdamer (ComparisonExpression operator l r) =
     nerdamerCalls nerdamer l @ nerdamerCalls nerdamer r"
| "nerdamerCalls nerdamer (AssignmentExpression operator l r) =
     nerdamerCalls nerdamer l @ nerdamerCalls nerdamer r"


section \<open>A behaviour of the external simplifier\<close>

text \<open>
  The nerdamer library is loaded from outside the repository.  One thing a call of
  it can do is reduce the fraction "(1)/(2)" to "1/2"; \<open>nerdamerHalf\<close> does that and
  throws on every other text.
\<close>

definition nerdamerHalf :: "jsstring \<Rightarrow> jsstring option" where
  "nerdamerHalf e = (if e = js ''(1)/(2)'' then Some (js ''1/2'') else None)"

section \<open>Properties of what the productions return\<close>

text \<open>Whether a tree holds an AssignmentExpression node.\<close>

fun containsAssignment :: "ast \<Rightarrow> bool" where
  "containsAssignment Null = False"
| "containsAssignment (NumberLiteral v) = False"
| "containsAssignment (Identifier v) = False"
| "containsAssignment (BinaryExpression operator l r) =
     (containsAssignment l \<or> containsAssignment r)"
| "containsAssignment (UnaryExpression operator operand) = containsAssignment operand"
| "containsAssignment (FunctionCall name arguments) = list_ex containsAssignment arguments"
| "containsAssignment (ArrayExpression elements) = list_ex containsAssignment elements"
| "containsAssignment (MatrixExpression rows) = list_ex (list_ex containsAssignment) rows"
| "containsAssignment (ComparisonExpression operator l r) =
     (containsAssignment l \<or> containsAssignment r)"
| "containsAssignment (AssignmentExpression operator l r) = True"
| "containsAssignment (ParenthesizedExpression expression) = containsAssignment expression"

text \<open>What holds of the value and state a production returns, if it returns.\<close>

fun returns :: "'a result \<Rightarrow> ('a \<Rightarrow> parser \<Rightarrow> bool) \<Rightarrow> bool" where
  "returns (Return a Q) p = p a Q"
| "returns (Throw Q) p = True"

lemma returns_bind:
  assumes "returns m p"
    and "\<And>a Q. m = Return a Q \<Longrightarrow> p a Q \<Longrightarrow> returns (k a Q) q"
  shows "returns (case m of Return a Q \<Rightarrow> k a Q | Throw Q \<Rightarrow> Throw Q) q"
  using assms by (cases m) auto

lemma returns_weaken: "returns m p \<Longrightarrow> (\<And>a Q. p a Q \<Longrightarrow> q a Q) \<Longrightarrow> returns m q"
  by (cases m) auto

definition plain :: "ast \<Rightarrow> parser \<Rightarrow> bool" where
  "plain a Q \<longleftrightarrow> \<not> containsAssignment a"

definition plainList :: "ast list \<Rightarrow> parser \<Rightarrow> bool" where
  "plainList as Q \<longleftrightarrow> \<not> list_ex containsAssignment as"

definition plainRows :: "ast list list \<times> ast list \<Rightarrow> parser \<Rightarrow> bool" where
  "plainRows rc Q \<longleftrightarrow>
     \<not> list_ex (list_ex containsAssignment) (fst rc) \<and> \<not> list_ex containsAssignment (snd rc)"

definition plainNoEquals :: "ast \<Rightarrow> parser \<Rightarrow> bool" where
  "plainNoEquals a Q \<longleftrightarrow> \<not> containsAssignment a \<and> peekType Q \<noteq> Some Equals"

lemmas plain_defs = plain_def plainList_def plainRows_def plainNoEquals_def

section \<open>The lexer on the remaining input\<close>

text \<open>
  The field \<^verbatim>\<open>currentChar\<close> caches the character at \<^verbatim>\<open>position\<close>; the constructor and
  \<^verbatim>\<open>advance\<close> keep it so.  With that, what the lexer does next depends only on the
  input from \<^verbatim>\<open>position\<close> on.
\<close>

definition lexer_ok :: "lexer \<Rightarrow> bool" where
  "lexer_ok L \<longleftrightarrow>
     currentChar L =
       (if lexPosition L < length (input L) then Some (input L ! lexPosition L) else None)"

definition rest :: "lexer \<Rightarrow> jsstring" where
  "rest L = drop (lexPosition L) (input L)"

text \<open>The characters \<^verbatim>\<open>processNumber\<close> takes, and the input it leaves.\<close>

fun takeNumber :: "bool \<Rightarrow> jsstring \<Rightarrow> jsstring" where
  "takeNumber hasDot [] = []"
| "takeNumber hasDot (c # cs) =
     (if isDigit c \<or> (c = 0x2E \<and> \<not> hasDot) then c # takeNumber (c = 0x2E \<or> hasDot) cs
      else [])"

fun dropNumber :: "bool \<Rightarrow> jsstring \<Rightarrow> jsstring" where
  "dropNumber hasDot [] = []"
| "dropNumber hasDot (c # cs) =
     (if isDigit c \<or> (c = 0x2E \<and> \<not> hasDot) then dropNumber (c = 0x2E \<or> hasDot) cs
      else c # cs)"

lemma takeNumber_dropNumber: "takeNumber h xs @ dropNumber h xs = xs"
  by (induction xs arbitrary: h) auto

lemma length_dropNumber: "length (dropNumber h xs) \<le> length xs"
  by (induction xs arbitrary: h) (auto intro: le_SucI)

lemma takeNumber_chars: "x \<in> set (takeNumber h xs) \<Longrightarrow> isDigit x \<or> x = 0x2E"
  by (induction xs arbitrary: h) (auto split: if_splits)

text \<open>The token \<^verbatim>\<open>processOperator\<close> makes of a character and the input after it.\<close>

definition operatorToken :: "jschar \<Rightarrow> jsstring \<Rightarrow> token \<times> jsstring" where
  "operatorToken c cs =
     (if c = 0x3C \<and> take 1 cs = [0x3D] then (mkToken LessEqual (js ''<=''), drop 1 cs)
      else if c = 0x3E \<and> take 1 cs = [0x3D] then (mkToken GreaterEqual (js ''>=''), drop 1 cs)
      else if c = 0x21 \<and> take 1 cs = [0x3D] then (mkToken NotEqual (js ''!=''), drop 1 cs)
      else
        (case operatorMap c of
           Some t \<Rightarrow> (mkToken t [c], cs)
         | None \<Rightarrow> (mkToken Unknown [c], cs)))"

lemma length_operatorToken: "length (snd (operatorToken c cs)) \<le> length cs"
  by (simp add: operatorToken_def split: option.splits)

text \<open>The token sequence of an input, by the rules of \<^verbatim>\<open>getNextToken\<close>.\<close>

function scan :: "jsstring \<Rightarrow> token list" where
  "scan [] = []"
| "scan (c # cs) =
     (if isWhitespace c then scan (dropWhile isWhitespace cs)
      else if isDigit c \<or> (c = 0x2E \<and> (case cs of [] \<Rightarrow> False | d # ds \<Rightarrow> isDigit d))
      then mkToken Number (takeNumber False (c # cs)) # scan (dropNumber False (c # cs))
      else if isIdentStart c
      then mkToken IdentifierT (takeWhile isIdentPart (c # cs)) # scan (dropWhile isIdentPart (c # cs))
      else if c = 0x5C
      then mkToken Command (0x5C # takeWhile isLetter cs) # scan (dropWhile isLetter cs)
      else fst (operatorToken c cs) # scan (snd (operatorToken c cs)))"
  by pat_completeness auto
termination
proof (relation "measure length")
  fix c :: jschar and cs :: jsstring
  assume "isDigit c \<or> (c = 0x2E \<and> (case cs of [] \<Rightarrow> False | d # ds \<Rightarrow> isDigit d))"
  then show "(dropNumber False (c # cs), c # cs) \<in> measure length"
    using length_dropNumber [of "c = 0x2E \<or> False" cs] by auto
next
  fix c :: jschar and cs :: jsstring
  assume "isIdentStart c"
  then have "isIdentPart c"
    by (auto simp: isIdentStart_def isIdentPart_def)
  then show "(dropWhile isIdentPart (c # cs), c # cs) \<in> measure length"
    using length_dropWhile_le [of isIdentPart cs] by simp
next
  fix c :: jschar and cs :: jsstring
  show "(dropWhile isLetter cs, c # cs) \<in> measure length"
    using length_dropWhile_le [of isLetter cs] by simp
next
  fix c :: jschar and cs :: jsstring
  show "(dropWhile isWhitespace cs, c # cs) \<in> measure length"
    using length_dropWhile_le [of isWhitespace cs] by simp
next
  fix c :: jschar and cs :: jsstring
  show "(snd (operatorToken c cs), c # cs) \<in> measure length"
    using length_operatorToken [of c cs] by simp
qed auto

declare scan.simps(2) [simp del]


text \<open>The lexer \<open>L\<close> has the input \<open>xs\<close> left and has pushed the tokens \<open>ts\<close>.\<close>

definition lexer_at :: "lexer \<Rightarrow> jsstring \<Rightarrow> token list \<Rightarrow> bool" where
  "lexer_at L xs ts \<longleftrightarrow> lexer_ok L \<and> rest L = xs \<and> lexTokens L = ts"

text \<open>
  A character that none of the one-character rules of \<^verbatim>\<open>getNextToken\<close> matches:
  no white space, no digit, no start of an identifier, no backslash, no key of
  \<^verbatim>\<open>operatorMap\<close>.
\<close>

definition ruleless :: "jschar \<Rightarrow> bool" where
  "ruleless c \<longleftrightarrow>
     \<not> isWhitespace c \<and> \<not> isDigit c \<and> \<not> isIdentStart c \<and> c \<noteq> 0x5C \<and> operatorMap c = None"

text \<open>
  The characters of an input that no rule matches, in order: the ruleless ones,
  but for an exclamation mark followed by an equals sign, which is the operator
  "!=".
\<close>

fun unmatchedChars :: "jsstring \<Rightarrow> jschar list" where
  "unmatchedChars [] = []"
| "unmatchedChars (c # cs) =
     (if ruleless c \<and> \<not> (c = 0x21 \<and> take 1 cs = [0x3D]) then c # unmatchedChars cs
      else unmatchedChars cs)"

section \<open>Rendering and reading back\<close>

subsection \<open>The trees that are rendered in the calculator's own syntax\<close>

text \<open>
  A tree whose rendering stays within the calculator's own syntax: it has no
  FunctionCall node and no MatrixExpression node, which \<^verbatim>\<open>astToString\<close> writes as calls
  in the syntax of the evaluation engine, and no identifier \<open>\<pi>\<close>, which it writes as
  \<^verbatim>\<open>pi\<close>.
\<close>

fun ownSyntax :: "ast \<Rightarrow> bool" where
  "ownSyntax Null = True"
| "ownSyntax (NumberLiteral v) = True"
| "ownSyntax (Identifier v) = (v \<noteq> [0x3C0])"
| "ownSyntax (BinaryExpression operator l r) = (ownSyntax l \<and> ownSyntax r)"
| "ownSyntax (UnaryExpression operator operand) = ownSyntax operand"
| "ownSyntax (FunctionCall name arguments) = False"
| "ownSyntax (ArrayExpression elements) = list_all ownSyntax elements"
| "ownSyntax (MatrixExpression rows) = False"
| "ownSyntax (ComparisonExpression operator l r) = (ownSyntax l \<and> ownSyntax r)"
| "ownSyntax (AssignmentExpression operator l r) = (ownSyntax l \<and> ownSyntax r)"
| "ownSyntax (ParenthesizedExpression expression) = ownSyntax expression"

text \<open>The token the lexer makes of the text of an operator.\<close>

definition operatorTokenOf :: "jsstring \<Rightarrow> token" where
  "operatorTokenOf v = (case v of [] \<Rightarrow> mkToken Unknown [] | c # cs \<Rightarrow> fst (operatorToken c cs))"

text \<open>The tokens a tree is written with, a comma before each element of an array.\<close>

fun toks :: "ast \<Rightarrow> token list" where
  "toks Null = []"
| "toks (NumberLiteral v) = [mkToken Number v]"
| "toks (Identifier v) = [mkToken IdentifierT v]"
| "toks (BinaryExpression operator l r) = toks l @ operatorTokenOf operator # toks r"
| "toks (UnaryExpression operator operand) = operatorTokenOf operator # toks operand"
| "toks (FunctionCall name arguments) = []"
| "toks (ArrayExpression elements) =
     mkToken LBracket (js ''['')
       # tl (concat (map (\<lambda>e. mkToken Comma (js '','') # toks e) elements))
       @ [mkToken RBracket (js '']'')]"
| "toks (MatrixExpression rows) = []"
| "toks (ComparisonExpression operator l r) = toks l @ operatorTokenOf operator # toks r"
| "toks (AssignmentExpression operator l r) = toks l @ operatorTokenOf operator # toks r"
| "toks (ParenthesizedExpression expression) =
     mkToken LParen (js ''('') # toks expression @ [mkToken RParen (js '')'')]"

text \<open>The texts of the Number and Identifier tokens the lexer makes.\<close>

definition numberText :: "jsstring \<Rightarrow> bool" where
  "numberText v \<longleftrightarrow>
     (case v of
        [] \<Rightarrow> False
      | c # cs \<Rightarrow>
          (isDigit c \<or> (c = 0x2E \<and> (case cs of [] \<Rightarrow> False | d # ds \<Rightarrow> isDigit d)))
          \<and> takeNumber False v = v)"

definition identifierText :: "jsstring \<Rightarrow> bool" where
  "identifierText v \<longleftrightarrow>
     (case v of [] \<Rightarrow> False | c # cs \<Rightarrow> isIdentStart c \<and> list_all isIdentPart cs)"

text \<open>
  A tree as the parser builds it from the lexer's tokens without a diagnostic:
  texts as the lexer makes them, and operands that \<^verbatim>\<open>astToString\<close> puts no
  parentheses around.
\<close>

fun wellFormed :: "ast \<Rightarrow> bool" where
  "wellFormed Null = False"
| "wellFormed (NumberLiteral v) = numberText v"
| "wellFormed (Identifier v) = (identifierText v \<and> v \<noteq> [0x3C0])"
| "wellFormed (BinaryExpression operator l r) =
     (operator \<in> set [js ''^'', js ''*'', js ''/'', js ''+'', js ''-'']
      \<and> wellFormed l \<and> wellFormed r
      \<and> \<not> needsParentheses l (BinaryExpression operator l r) LeftSide
      \<and> \<not> needsParentheses r (BinaryExpression operator l r) RightSide)"
| "wellFormed (UnaryExpression operator operand) =
     (operator \<in> set [js ''+'', js ''-''] \<and> wellFormed operand
      \<and> \<not> needsParenthesesForUnary operand)"
| "wellFormed (FunctionCall name arguments) = False"
| "wellFormed (ArrayExpression elements) = list_all wellFormed elements"
| "wellFormed (MatrixExpression rows) = False"
| "wellFormed (ComparisonExpression operator l r) =
     (operator \<in> set [js ''<'', js ''>'', js ''<='', js ''>='', js ''='', js ''!='']
      \<and> wellFormed l \<and> wellFormed r)"
| "wellFormed (AssignmentExpression operator l r) =
     (operator = js ''='' \<and> wellFormed l \<and> wellFormed r)"
| "wellFormed (ParenthesizedExpression expression) = wellFormed expression"

text \<open>What may follow a complete expression in a text without merging into its last token.\<close>

definition separated :: "jsstring \<Rightarrow> bool" where
  "separated R \<longleftrightarrow> (case R of [] \<Rightarrow> True | c # cs \<Rightarrow> \<not> isIdentPart c \<and> c \<noteq> 0x2E)"

definition noEquals :: "jsstring \<Rightarrow> bool" where
  "noEquals R \<longleftrightarrow> (case R of [] \<Rightarrow> True | c # cs \<Rightarrow> c \<noteq> 0x3D)"

text \<open>The operator texts that the parser puts into a node.\<close>

definition operatorTexts :: "jsstring list" where
  "operatorTexts =
     [js ''^'', js ''*'', js ''/'', js ''+'', js ''-'',
      js ''<'', js ''>'', js ''<='', js ''>='', js ''='', js ''!='']"

text \<open>The text of the tokens of each kind that has one text only.\<close>

fun textOf :: "tokentype \<Rightarrow> jsstring" where
  "textOf Plus = js ''+''"
| "textOf Minus = js ''-''"
| "textOf Multiply = js ''*''"
| "textOf Divide = js ''/''"
| "textOf Power = js ''^''"
| "textOf Equals = js ''=''"
| "textOf LParen = js ''(''"
| "textOf RParen = js '')''"
| "textOf LBracket = js ''[''"
| "textOf RBracket = js '']''"
| "textOf LBrace = js ''{''"
| "textOf RBrace = js ''}''"
| "textOf Comma = js '',''"
| "textOf Semicolon = js '';''"
| "textOf Dot = js ''.''"
| "textOf LessThan = js ''<''"
| "textOf GreaterThan = js ''>''"
| "textOf LessEqual = js ''<=''"
| "textOf GreaterEqual = js ''>=''"
| "textOf NotEqual = js ''!=''"
| "textOf _ = []"

text \<open>A token as the lexer makes it: its text is what its kind allows.\<close>

definition lexical :: "token \<Rightarrow> bool" where
  "lexical t \<longleftrightarrow>
     (if tok_type t = Number then numberText (tok_value t)
      else if tok_type t = IdentifierT then identifierText (tok_value t)
      else if tok_type t = Command \<or> tok_type t = Unknown \<or> tok_type t = EOF then True
      else tok_value t = textOf (tok_type t))"

subsection \<open>What a production has read when it returns\<close>

text \<open>The tokens from the current position on.\<close>

definition ahead :: "parser \<Rightarrow> token list" where
  "ahead P = drop (position P) (tokens P)"

text \<open>
  The precedence level of the production that builds a node: 6 for
  \<^verbatim>\<open>parsePrimary\<close>, 5 for the loop of \<^verbatim>\<open>parseExponent\<close>, down to 1 for
  \<^verbatim>\<open>parseAssignment\<close>.
\<close>

fun level :: "ast \<Rightarrow> nat" where
  "level (BinaryExpression operator l r) =
     (if operator = js ''^'' then 5
      else if operator = js ''*'' \<or> operator = js ''/'' then 4
      else if operator = js ''+'' \<or> operator = js ''-'' then 3
      else 0)"
| "level (ComparisonExpression operator l r) = 2"
| "level (AssignmentExpression operator l r) = 1"
| "level _ = 6"

text \<open>The level of the loop that reads an operator token.\<close>

fun binaryLevel :: "tokentype \<Rightarrow> nat" where
  "binaryLevel Power = 5"
| "binaryLevel Multiply = 4"
| "binaryLevel Divide = 4"
| "binaryLevel Plus = 3"
| "binaryLevel Minus = 3"
| "binaryLevel _ = 0"

text \<open>
  From \<open>P\<close> to \<open>Q\<close> the tokens are the same and no diagnostic is lost; \<open>clean\<close>, when
  moreover the tokens are as the lexer makes them and no diagnostic was added.
\<close>

definition kept :: "parser \<Rightarrow> parser \<Rightarrow> bool" where
  "kept P Q \<longleftrightarrow> tokens Q = tokens P \<and> length (errors P) \<le> length (errors Q)"

definition clean :: "parser \<Rightarrow> parser \<Rightarrow> bool" where
  "clean P Q \<longleftrightarrow> list_all lexical (tokens P) \<and> length (errors Q) = length (errors P)"

text \<open>
  What a production that returns the node \<open>a\<close> in the state \<open>Q\<close> has done from \<open>P\<close>:
  if it added no diagnostic and the node is in the calculator's own syntax, the
  node is well formed, of level \<open>k\<close> at least, and the tokens read are its tokens.
\<close>

definition faithful :: "nat \<Rightarrow> parser \<Rightarrow> ast \<Rightarrow> parser \<Rightarrow> bool" where
  "faithful k P a Q \<longleftrightarrow>
     kept P Q \<and>
     (clean P Q \<longrightarrow> ownSyntax a \<longrightarrow>
        wellFormed a \<and> k \<le> level a \<and> ahead P = toks a @ ahead Q)"

text \<open>The same for a loop that started with the node \<open>node\<close>.\<close>

definition continued :: "nat \<Rightarrow> ast \<Rightarrow> parser \<Rightarrow> ast \<Rightarrow> parser \<Rightarrow> bool" where
  "continued k node P a Q \<longleftrightarrow>
     kept P Q \<and>
     (clean P Q \<longrightarrow> ownSyntax a \<longrightarrow>
        ownSyntax node \<and> toks node @ ahead P = toks a @ ahead Q
        \<and> (wellFormed node \<and> k \<le> level node \<longrightarrow> wellFormed a \<and> k \<le> level a))"

text \<open>The same for the loop that reads the elements after the first.\<close>

definition commaToks :: "ast list \<Rightarrow> token list" where
  "commaToks es = concat (map (\<lambda>e. mkToken Comma (js '','') # toks e) es)"

definition listed :: "ast list \<Rightarrow> parser \<Rightarrow> ast list \<Rightarrow> parser \<Rightarrow> bool" where
  "listed args P all Q \<longleftrightarrow>
     kept P Q \<and>
     (\<exists>new. all = args @ new \<and>
        (clean P Q \<longrightarrow> list_all ownSyntax new \<longrightarrow>
           list_all wellFormed new \<and> ahead P = commaToks new @ ahead Q))"

text \<open>A production whose node is not in the calculator's own syntax.\<close>

definition foreign :: "parser \<Rightarrow> ast \<Rightarrow> parser \<Rightarrow> bool" where
  "foreign P a Q \<longleftrightarrow> kept P Q \<and> (clean P Q \<longrightarrow> \<not> ownSyntax a)"

text \<open>A production of which only the state it leaves matters.\<close>

definition keptOnly :: "parser \<Rightarrow> 'a \<Rightarrow> parser \<Rightarrow> bool" where
  "keptOnly P x Q \<longleftrightarrow> kept P Q"

text \<open>The number of diagnostics a call of \<^verbatim>\<open>consume\<close> adds: none or one.\<close>

definition failed :: "parser \<Rightarrow> tokentype option \<Rightarrow> nat" where
  "failed P e = length (errors (snd (consume P e))) - length (errors P)"

subsection \<open>Equivalence up to grouping\<close>

text \<open>A tree without its ParenthesizedExpression nodes, each replaced by what it wraps.\<close>

fun unwrap :: "ast \<Rightarrow> ast" where
  "unwrap Null = Null"
| "unwrap (NumberLiteral v) = NumberLiteral v"
| "unwrap (Identifier v) = Identifier v"
| "unwrap (BinaryExpression operator l r) = BinaryExpression operator (unwrap l) (unwrap r)"
| "unwrap (UnaryExpression operator operand) = UnaryExpression operator (unwrap operand)"
| "unwrap (FunctionCall name arguments) = FunctionCall name (map unwrap arguments)"
| "unwrap (ArrayExpression elements) = ArrayExpression (map unwrap elements)"
| "unwrap (MatrixExpression rows) = MatrixExpression (map (map unwrap) rows)"
| "unwrap (ComparisonExpression operator l r) =
     ComparisonExpression operator (unwrap l) (unwrap r)"
| "unwrap (AssignmentExpression operator l r) =
     AssignmentExpression operator (unwrap l) (unwrap r)"
| "unwrap (ParenthesizedExpression expression) = unwrap expression"

section \<open>Worked inputs\<close>

text \<open>
  C1.  The input "x=5" does not parse to an AssignmentExpression: the loop of
  \<^verbatim>\<open>parseComparison\<close> consumes the equals sign and builds a ComparisonExpression
  with operator "=", left the Identifier x and right the NumberLiteral 5, so that
  \<^verbatim>\<open>parseAssignment\<close> finds no equals sign left.  The input "2=3" parses to a
  ComparisonExpression with operator "=" as well.
\<close>

theorem C1_equals_parses_as_comparison:
  "parse (lex_js (js ''x=5''))
     = Inr (ComparisonExpression (js ''='') (Identifier (js ''x'')) (NumberLiteral (js ''5'')))
   \<and> parse (lex_js (js ''2=3''))
     = Inr (ComparisonExpression (js ''='') (NumberLiteral (js ''2'')) (NumberLiteral (js ''3'')))"
  by code_simp


text \<open>
  C7.  On a Plus or Minus token \<^verbatim>\<open>parsePrimary\<close> consumes the token and takes as
  operand what \<^verbatim>\<open>parsePrimary\<close> itself returns next, not a whole exponent or term.
  So "-2^2" parses to BinaryExpression(^, UnaryExpression(-, 2), 2), the grouping
  (-2)^2.
\<close>

theorem C7_unary_operand_is_primary:
  "parse (lex_js (js ''-2^2''))
     = Inr (BinaryExpression (js ''^'')
              (UnaryExpression (js ''-'') (NumberLiteral (js ''2'')))
              (NumberLiteral (js ''2'')))
   \<and> (\<forall>P t. peek P 0 = Some t \<and> (tok_type t = Plus \<or> tok_type t = Minus) \<longrightarrow>
         parsePrimary P =
           (case parsePrimary (P\<lparr>position := position P + 1\<rparr>) of
              Throw Q \<Rightarrow> Throw Q
            | Return operand P2 \<Rightarrow> Return (UnaryExpression (tok_value t) operand) P2))"
proof (intro conjI allI impI)
  show "parse (lex_js (js ''-2^2''))
     = Inr (BinaryExpression (js ''^'')
              (UnaryExpression (js ''-'') (NumberLiteral (js ''2'')))
              (NumberLiteral (js ''2'')))"
    by code_simp
next
  fix P t
  assume a: "peek P 0 = Some t \<and> (tok_type t = Plus \<or> tok_type t = Minus)"
  then have "consumeValue P = Return (tok_value t) (P\<lparr>position := position P + 1\<rparr>)"
    by (simp add: consumeValue_peek)
  with a show "parsePrimary P =
      (case parsePrimary (P\<lparr>position := position P + 1\<rparr>) of
         Throw Q \<Rightarrow> Throw Q
       | Return operand P2 \<Rightarrow> Return (UnaryExpression (tok_value t) operand) P2)"
    by (subst parsePrimary.simps) (auto split: result.splits)
qed

theorem C7_unary_operand_is_primary_witness:
  "peek (newParser (lex_js (js ''-2^2''))) 0 = Some (mkToken Minus (js ''-''))
   \<and> parsePrimary (newParser (lex_js (js ''-2^2'')))
       = Return (UnaryExpression (js ''-'') (NumberLiteral (js ''2'')))
           \<lparr>tokens = lex_js (js ''-2^2''), position = 2, errors = []\<rparr>"
proof -
  have p: "peek (newParser (lex_js (js ''-2^2''))) 0 = Some (mkToken Minus (js ''-''))"
    by code_simp
  have t: "tok_type (mkToken Minus (js ''-'')) = Minus"
    by (simp add: mkToken_def)
  have r: "parsePrimary ((newParser (lex_js (js ''-2^2'')))\<lparr>position :=
        position (newParser (lex_js (js ''-2^2''))) + 1\<rparr>)
      = Return (NumberLiteral (js ''2''))
          \<lparr>tokens = lex_js (js ''-2^2''), position = 2, errors = []\<rparr>"
    by code_simp
  have v: "tok_value (mkToken Minus (js ''-'')) = js ''-''"
    by (simp add: mkToken_def)
  show ?thesis
    using C7_unary_operand_is_primary [THEN conjunct2, rule_format, OF conjI [OF p disjI2 [OF t]]]
    by (simp only: p r v result.case simp_thms)
qed

text \<open>
  C8.  "\frac{1}{2}" parses to a FunctionCall named \frac with the two arguments 1
  and 2, which renders as "(1)/(2)"; and a FunctionCall named \frac with two
  arguments always renders as its first argument in parentheses, a slash, and its
  second argument in parentheses.
\<close>

theorem C8_fraction:
  "parse (lex_js (0x5C # js ''frac{1}{2}''))
     = Inr (FunctionCall (0x5C # js ''frac'') [NumberLiteral (js ''1''), NumberLiteral (js ''2'')])
   \<and> astToString
         (FunctionCall (0x5C # js ''frac'') [NumberLiteral (js ''1''), NumberLiteral (js ''2'')])
       = js ''(1)/(2)''
   \<and> (\<forall>n d. astToString (FunctionCall (0x5C # js ''frac'') [n, d])
         = js ''('' @ astToString n @ js '')/('' @ astToString d @ js '')'')"
proof (intro conjI allI)
  show "parse (lex_js (0x5C # js ''frac{1}{2}''))
     = Inr (FunctionCall (0x5C # js ''frac'') [NumberLiteral (js ''1''), NumberLiteral (js ''2'')])"
    by code_simp
  show "astToString
         (FunctionCall (0x5C # js ''frac'') [NumberLiteral (js ''1''), NumberLiteral (js ''2'')])
       = js ''(1)/(2)''"
    by code_simp
  show "astToString (FunctionCall (0x5C # js ''frac'') [n, d])
         = js ''('' @ astToString n @ js '')/('' @ astToString d @ js '')''" for n d
    by simp
qed

text \<open>
  C9.  "\frac{1}" does not parse.  \<^verbatim>\<open>parseFracCommand\<close> records one diagnostic and
  returns \<^verbatim>\<open>null\<close>; \<^verbatim>\<open>parseAssignment\<close> then reads \<^verbatim>\<open>node.type\<close> of that
  \<^verbatim>\<open>null\<close>, and \<^verbatim>\<open>parse\<close> turns the TypeError into an Error whose message is the
  diagnostic.  The message starts with the five characters of "\frac"; its code
  units U+5206 U+6BCD are the word for denominator and U+007B U+5F0F U+007D are
  "{expression}", the brace group that is missing.
\<close>

theorem C9_missing_denominator:
  "parseExpression (newParser (lex_js (0x5C # js ''frac{1}'')))
     = Throw \<lparr>tokens = lex_js (0x5C # js ''frac{1}''), position = 4,
              errors = [msgFracDenominator]\<rparr>
   \<and> parse (lex_js (0x5C # js ''frac{1}''))
     = Inl (Error
         (0x5C # js ''frac'' @
          [0x20, 0x30B3, 0x30DE, 0x30F3, 0x30C9, 0x306E, 0x5206, 0x6BCD, 0x304C, 0x898B,
           0x3064, 0x304B, 0x308A, 0x307E, 0x305B, 0x3093, 0x3002, 0x7B, 0x5F0F, 0x7D, 0x20,
           0x306E, 0x5F62, 0x5F0F, 0x304C, 0x5FC5, 0x8981, 0x3067, 0x3059, 0x3002]))"
  by (rule conjI; code_simp)

text \<open>
  C10.  On "1+2)" the productions return the tree of "1+2" with the position at
  the closing parenthesis and no diagnostic; \<^verbatim>\<open>parse\<close> then records the diagnostic
  for the tokens left over and throws an Error whose message is the list of
  diagnostics joined by line feeds, here that one diagnostic: the trailing-tokens
  text, the text of the remaining token, and the label, text and kind of the
  current token.
\<close>

theorem C10_trailing_tokens:
  "parseExpression (newParser (lex_js (js ''1+2)'')))
     = Return (BinaryExpression (js ''+'') (NumberLiteral (js ''1'')) (NumberLiteral (js ''2'')))
         \<lparr>tokens = lex_js (js ''1+2)''), position = 3, errors = []\<rparr>
   \<and> parse (lex_js (js ''1+2)''))
     = Inl (Error (join [0x0A]
         [msgTrailingTokens @ js '')'' @ msgTokenLabel @ js '')'' @ js '' (RParen)'']))"
  by (rule conjI; code_simp)

section \<open>The two renderers\<close>

text \<open>
  C4, as stated: the two \<^verbatim>\<open>astToString\<close> functions return the same string for every
  node.  This fails on the FunctionCall named \frac with the arguments 1 and 2 when
  nerdamer reduces "(1)/(2)" to "1/2": the function of src/unnamed/part_000
  returns "1/2", the function of evaluateExpressionToLatex.js returns "(1)/(2)".
\<close>

theorem C4_counterexample:
  "astToString_part000 nerdamerHalf
     (FunctionCall (0x5C # js ''frac'') [NumberLiteral (js ''1''), NumberLiteral (js ''2'')])
   = js ''1/2''
   \<and> astToString
     (FunctionCall (0x5C # js ''frac'') [NumberLiteral (js ''1''), NumberLiteral (js ''2'')])
   = js ''(1)/(2)''
   \<and> astToString_part000 nerdamerHalf
     (FunctionCall (0x5C # js ''frac'') [NumberLiteral (js ''1''), NumberLiteral (js ''2'')])
   \<noteq> astToString
     (FunctionCall (0x5C # js ''frac'') [NumberLiteral (js ''1''), NumberLiteral (js ''2'')])"
  by code_simp

text \<open>
  C4, amended: the two \<^verbatim>\<open>astToString\<close> functions return the same string for every
  node for which each call of nerdamer, made while the function of
  src/unnamed/part_000 renders the node, either throws or returns the text it was
  given.
\<close>

theorem C4_astToString_agree:
  assumes "\<forall>e \<in> set (nerdamerCalls nerdamer node). nerdamer e = None \<or> nerdamer e = Some e"
  shows "astToString_part000 nerdamer node = astToString node"
  using assms
proof (induction node rule: astToString.induct)
  case (6 name arguments)
  show ?case
  proof (cases "name = 0x5C # js ''frac'' \<and> length arguments = 2")
    case True
    have a0: "astToString_part000 nerdamer (arguments ! 0) = astToString (arguments ! 0)"
      using True 6(1) 6(4) by simp
    have a1: "astToString_part000 nerdamer (arguments ! 1) = astToString (arguments ! 1)"
      using True 6(2) 6(4) by simp
    have "nerdamer (js ''('' @ astToString (arguments ! 0) @ js '')/(''
          @ astToString (arguments ! 1) @ js '')'') = None
       \<or> nerdamer (js ''('' @ astToString (arguments ! 0) @ js '')/(''
          @ astToString (arguments ! 1) @ js '')'')
         = Some (js ''('' @ astToString (arguments ! 0) @ js '')/(''
          @ astToString (arguments ! 1) @ js '')'')"
      using True 6(4) by (simp add: a0 a1 a1 [unfolded One_nat_def])
    then show ?thesis
      using True by (auto simp: Let_def a0 a1 a1 [unfolded One_nat_def])
  next
    case False
    have eq: "map (astToString_part000 nerdamer) arguments = map astToString arguments"
      using 6(3) [OF False] 6(4) False by auto
    show ?thesis using False by (auto simp: eq)
  qed
next
  case (8 elements)
  have eq: "map (astToString_part000 nerdamer) elements = map astToString elements"
    using 8 by auto
  show ?case by (simp add: eq)
next
  case (9 rows)
  have eq: "map (astToString_part000 nerdamer) row = map astToString row"
    if "row \<in> set rows" for row
    using 9(1) [OF that] 9(2) that by auto
  show ?case by (simp add: eq cong: map_cong)
qed (simp_all add: Let_def)

theorem C4_astToString_agree_witness:
  "nerdamerCalls nerdamerHalf
     (BinaryExpression (js ''+'')
        (FunctionCall (0x5C # js ''frac'') [NumberLiteral (js ''1''), NumberLiteral (js ''3'')])
        (Identifier (js ''x'')))
   = [js ''(1)/(3)'']
   \<and> nerdamerHalf (js ''(1)/(3)'') = None
   \<and> astToString_part000 nerdamerHalf
     (BinaryExpression (js ''+'')
        (FunctionCall (0x5C # js ''frac'') [NumberLiteral (js ''1''), NumberLiteral (js ''3'')])
        (Identifier (js ''x'')))
   = astToString
     (BinaryExpression (js ''+'')
        (FunctionCall (0x5C # js ''frac'') [NumberLiteral (js ''1''), NumberLiteral (js ''3'')])
        (Identifier (js ''x'')))"
proof -
  have c: "nerdamerCalls nerdamerHalf
     (BinaryExpression (js ''+'')
        (FunctionCall (0x5C # js ''frac'') [NumberLiteral (js ''1''), NumberLiteral (js ''3'')])
        (Identifier (js ''x'')))
   = [js ''(1)/(3)'']"
    by code_simp
  have n: "nerdamerHalf (js ''(1)/(3)'') = None"
    by code_simp
  show ?thesis
    using C4_astToString_agree [of nerdamerHalf "BinaryExpression (js ''+'')
        (FunctionCall (0x5C # js ''frac'') [NumberLiteral (js ''1''), NumberLiteral (js ''3'')])
        (Identifier (js ''x''))"]
    unfolding c using n by simp
qed

section \<open>No assignment node is ever built\<close>

lemma consumeValue_cases:
  obtains (throw) Q where "consumeValue P = Throw Q"
  | (return) t where "peek P 0 = Some t"
      "consumeValue P = Return (tok_value t) (P\<lparr>position := position P + 1\<rparr>)"
  by (cases "peek P 0") (auto simp: consumeValue_def consume_def)

lemma no_assignment:
  "returns (parsePrimary P) plain"
  "returns (parseFunctionCall funcName P) plain"
  "\<not> list_ex containsAssignment args \<Longrightarrow> returns (parseBraceArgs args P) plainList"
  "\<not> list_ex containsAssignment args \<Longrightarrow> returns (parseCommaArgs args P) plainList"
  "returns (parseArrayExpression P) plain"
  "returns (parseFracCommand P) plain"
  "returns (parseMatrixExpression P) plain"
  "\<not> list_ex (list_ex containsAssignment) rows \<Longrightarrow> \<not> list_ex containsAssignment currentRow \<Longrightarrow>
     returns (parseMatrix_loop rows currentRow P) plainRows"
  "returns (parseExponent P) plain"
  "\<not> containsAssignment node \<Longrightarrow> returns (parseExponent_loop node P) plain"
  "returns (parseTerm P) plain"
  "\<not> containsAssignment node \<Longrightarrow> returns (parseTerm_loop node P) plain"
  "returns (parseAdditive P) plain"
  "\<not> containsAssignment node \<Longrightarrow> returns (parseAdditive_loop node P) plain"
  "returns (parseComparison P) plainNoEquals"
  "\<not> containsAssignment node \<Longrightarrow> returns (parseComparison_loop node P) plainNoEquals"
  "returns (parseAssignment P) plain"
  "returns (parseExpression P) plain"
proof (induct rule: parsePrimary_parseFunctionCall_parseBraceArgs_parseCommaArgs_parseArrayExpression_parseFracCommand_parseMatrixExpression_parseMatrix_loop_parseExponent_parseExponent_loop_parseTerm_parseTerm_loop_parseAdditive_parseAdditive_loop_parseComparison_parseComparison_loop_parseAssignment_parseExpression.induct)
  case (1 P)
  note IH = 1
  show ?case
  proof (cases "peek P 0")
    case None
    then show ?thesis by (simp add: parsePrimary.simps [of P] plain_defs)
  next
    case (Some token)
    note [simp] = parsePrimary.simps [of P] Some plain_defs
    consider (number) "tok_type token = Number" | (ident) "tok_type token = IdentifierT"
      | (frac) "tok_type token = Command" "tok_value token = 0x5C # js ''frac''"
      | (call) "tok_type token = Command" "tok_value token \<noteq> 0x5C # js ''frac''"
      | (paren) "tok_type token = LParen" | (array) "tok_type token = LBracket"
      | (matrix) "tok_type token = LBrace"
      | (plus) "tok_type token = Plus" | (minus) "tok_type token = Minus"
      | (other) "tok_type token \<notin> {Number, IdentifierT, Command, LParen, LBracket, LBrace, Plus, Minus}"
      by auto
    then show ?thesis
    proof cases
      case number
      then show ?thesis by simp
    next
      case ident
      then show ?thesis by simp
    next
      case frac
      then show ?thesis using IH(1) [OF Some] by auto
    next
      case call
      then show ?thesis using IH(2) [OF Some] by auto
    next
      case paren
      then show ?thesis using IH(3) [OF Some] by (auto split: result.splits)
    next
      case array
      then show ?thesis using IH(4) [OF Some] by auto
    next
      case matrix
      then show ?thesis using IH(5) [OF Some] by auto
    next
      case plus
      then show ?thesis
        using IH(6) [OF Some] by (auto simp: consumeValue_peek split: result.splits)
    next
      case minus
      then show ?thesis
        using IH(6) [OF Some] by (auto simp: consumeValue_peek split: result.splits)
    next
      case other
      then show ?thesis by auto
    qed
  qed
next
  case (2 funcName P)
  note IH = 2
  note [simp] = parseFunctionCall.simps [of funcName P] plain_defs
  consider (brace) "peekType P = Some LBrace"
    | (paren) "peekType P = Some LParen" "peekType (snd (consume P (Some LParen))) \<noteq> Some RParen"
    | (empty) "peekType P = Some LParen" "peekType (snd (consume P (Some LParen))) = Some RParen"
    | (bare) "peekType P \<noteq> Some LBrace" "peekType P \<noteq> Some LParen"
    by auto
  then show ?case
  proof cases
    case brace
    then show ?thesis using IH(1,2) by (auto split: result.splits)
  next
    case paren
    then show ?thesis
      using IH(3) [OF _ _ refl] IH(4) [OF _ _ refl] by (auto simp: Let_def split: result.splits)
  next
    case empty
    then show ?thesis by (auto simp: Let_def)
  next
    case bare
    then show ?thesis using IH(5) by (auto split: result.splits)
  qed
next
  case (3 args P)
  then show ?case
    by (auto simp: parseBraceArgs.simps [of args P] plain_defs split: result.splits)
next
  case (4 args P)
  then show ?case
    by (auto simp: parseCommaArgs.simps [of args P] plain_defs split: result.splits)
next
  case (5 P)
  show ?case
    using 5(1) [OF refl] 5(2) [OF refl]
    by (auto simp: parseArrayExpression.simps [of P] plain_defs Let_def split: result.splits)
next
  case (6 P)
  show ?case
    using 6(1) 6(2) [OF _ _ refl]
    by (auto simp: parseFracCommand.simps [of P] plain_defs Let_def split: result.splits)
next
  case (7 P)
  show ?case
    using 7(1) [OF refl] 7(2) [OF refl]
    by (auto simp: parseMatrixExpression.simps [of P] plain_defs Let_def split: result.splits)
next
  case (8 rows currentRow P)
  note IH = 8(1-5)
  note prems = 8(6-)
  show ?case
  proof (cases "peek P 0")
    case None
    then show ?thesis
      using prems by (simp add: parseMatrix_loop.simps [of rows currentRow P] plain_defs)
  next
    case (Some t)
    note [simp] = parseMatrix_loop.simps [of rows currentRow P] Some plain_defs
    consider (rbrace) "tok_type t = RBrace" | (comma) "tok_type t = Comma"
      | (semicolon) "tok_type t = Semicolon"
      | (other) "tok_type t \<notin> {RBrace, Comma, Semicolon}"
      by auto
    then show ?thesis
    proof cases
      case rbrace
      then show ?thesis using prems by simp
    next
      case comma
      then show ?thesis
        using prems IH(1) [OF Some] IH(2) [OF Some] by (auto split: result.splits)
    next
      case semicolon
      then show ?thesis
        using prems IH(3) [OF Some] IH(4) [OF Some] by (auto split: result.splits)
    next
      case other
      then show ?thesis
        using prems IH(5) [OF Some] by auto
    qed
  qed
next
  case (9 P)
  then show ?case
    by (auto simp: parseExponent.simps [of P] plain_defs split: result.splits)
next
  case (10 node P)
  show ?case
  proof (cases "peekType P = Some Power")
    case False
    then show ?thesis
      using 10(3) by (simp add: parseExponent_loop.simps [of node P] plain_defs)
  next
    case True
    show ?thesis
    proof (cases P rule: consumeValue_cases)
      case (throw Q)
      then show ?thesis using True by (simp add: parseExponent_loop.simps [of node P])
    next
      case (return t)
      show ?thesis
        using True 10(3) 10(1) [OF True return(2)] 10(2) [OF True return(2)]
        by (auto simp: parseExponent_loop.simps [of node P] return(2) plain_defs
            split: result.splits)
    qed
  qed
next
  case (11 P)
  then show ?case
    by (auto simp: parseTerm.simps [of P] plain_defs split: result.splits)
next
  case (12 node P)
  show ?case
  proof (cases "peekType P = Some Multiply \<or> peekType P = Some Divide")
    case False
    then show ?thesis
      using 12(3) by (simp add: parseTerm_loop.simps [of node P] plain_defs)
  next
    case True
    show ?thesis
    proof (cases P rule: consumeValue_cases)
      case (throw Q)
      then show ?thesis using True by (simp add: parseTerm_loop.simps [of node P])
    next
      case (return t)
      show ?thesis
        using True 12(3) 12(1) [OF True return(2)] 12(2) [OF True return(2)]
        by (auto simp: parseTerm_loop.simps [of node P] return(2) plain_defs
            split: result.splits)
    qed
  qed
next
  case (13 P)
  then show ?case
    by (auto simp: parseAdditive.simps [of P] plain_defs split: result.splits)
next
  case (14 node P)
  show ?case
  proof (cases "peekType P = Some Plus \<or> peekType P = Some Minus")
    case False
    then show ?thesis
      using 14(3) by (simp add: parseAdditive_loop.simps [of node P] plain_defs)
  next
    case True
    show ?thesis
    proof (cases P rule: consumeValue_cases)
      case (throw Q)
      then show ?thesis using True by (simp add: parseAdditive_loop.simps [of node P])
    next
      case (return t)
      show ?thesis
        using True 14(3) 14(1) [OF True return(2)] 14(2) [OF True return(2)]
        by (auto simp: parseAdditive_loop.simps [of node P] return(2) plain_defs
            split: result.splits)
    qed
  qed
next
  case (15 P)
  then show ?case
    by (auto simp: parseComparison.simps [of P] plain_defs split: result.splits)
next
  case (16 node P)
  show ?case
  proof (cases "peekType P = Some LessThan \<or> peekType P = Some GreaterThan
         \<or> peekType P = Some LessEqual \<or> peekType P = Some GreaterEqual
         \<or> peekType P = Some Equals \<or> peekType P = Some NotEqual")
    case False
    then show ?thesis
      using 16(3) by (simp add: parseComparison_loop.simps [of node P] plain_defs)
  next
    case True
    show ?thesis
    proof (cases P rule: consumeValue_cases)
      case (throw Q)
      then show ?thesis using True by (simp add: parseComparison_loop.simps [of node P])
    next
      case (return t)
      show ?thesis
        using True 16(3) 16(1) [OF True return(2)] 16(2) [OF True return(2)]
        by (auto simp: parseComparison_loop.simps [of node P] return(2) plain_defs
            split: result.splits)
    qed
  qed
next
  case (17 P)
  show ?case
    using 17(1)
    by (auto simp: parseAssignment.simps [of P] plain_defs split: result.splits ast.splits)
next
  case (18 P)
  then show ?case
    by (simp add: parseExpression.simps [of P])
qed


text \<open>
  C2.  When \<^verbatim>\<open>parseComparison\<close> returns, the current token is not an Equals
  token, so the branch of \<^verbatim>\<open>parseAssignment\<close> that builds an AssignmentExpression
  never runs; and no tree that \<^verbatim>\<open>parse\<close> returns, for any token sequence, holds an
  AssignmentExpression node.
\<close>

theorem C2_no_assignment:
  "(\<forall>P node Q. parseComparison P = Return node Q \<longrightarrow> peekType Q \<noteq> Some Equals)
   \<and> (\<forall>ts a. parse ts = Inr a \<longrightarrow> \<not> containsAssignment a)"
proof (intro conjI allI impI)
  fix P node Q
  assume "parseComparison P = Return node Q"
  then show "peekType Q \<noteq> Some Equals"
    using no_assignment(15) [of P] by (simp add: plainNoEquals_def)
next
  fix ts a
  assume "parse ts = Inr a"
  then obtain Q where "parseExpression (newParser ts) = Return a Q"
    by (auto simp: parse_def parser_parse_def Let_def split: result.splits if_splits)
  then show "\<not> containsAssignment a"
    using no_assignment(18) [of "newParser ts"] by (simp add: plain_def)
qed

theorem C2_no_assignment_witness:
  "parseComparison (newParser (lex_js (js ''x=5'')))
     = Return (ComparisonExpression (js ''='') (Identifier (js ''x'')) (NumberLiteral (js ''5'')))
         \<lparr>tokens = lex_js (js ''x=5''), position = 3, errors = []\<rparr>
   \<and> peekType \<lparr>tokens = lex_js (js ''x=5''), position = 3, errors = []\<rparr> \<noteq> Some Equals
   \<and> parse (lex_js (js ''x=5''))
     = Inr (ComparisonExpression (js ''='') (Identifier (js ''x'')) (NumberLiteral (js ''5'')))
   \<and> \<not> containsAssignment
       (ComparisonExpression (js ''='') (Identifier (js ''x'')) (NumberLiteral (js ''5'')))"
proof -
  have c: "parseComparison (newParser (lex_js (js ''x=5'')))
     = Return (ComparisonExpression (js ''='') (Identifier (js ''x'')) (NumberLiteral (js ''5'')))
         \<lparr>tokens = lex_js (js ''x=5''), position = 3, errors = []\<rparr>"
    by code_simp
  have p: "parse (lex_js (js ''x=5''))
     = Inr (ComparisonExpression (js ''='') (Identifier (js ''x'')) (NumberLiteral (js ''5'')))"
    by code_simp
  show ?thesis
    using c p C2_no_assignment [THEN conjunct1, rule_format, OF c]
      C2_no_assignment [THEN conjunct2, rule_format, OF p]
    by blast
qed

section \<open>The lexer computes the token sequence of its input\<close>

lemma lexer_at_newLexer: "lexer_at (newLexer s) s []"
  by (cases s) (simp_all add: lexer_at_def lexer_ok_def rest_def newLexer_def)

lemma lexer_at_Nil: "lexer_at L [] ts \<Longrightarrow> currentChar L = None"
  by (auto simp: lexer_at_def lexer_ok_def rest_def)

lemma lexer_at_Cons:
  assumes "lexer_at L (c # cs) ts"
  shows "currentChar L = Some c"
    and "lexer_at (advance L) cs ts"
    and "lexPeek L 1 = (case cs of [] \<Rightarrow> None | d # ds \<Rightarrow> Some d)"
proof -
  have ok: "lexer_ok L" and r: "drop (lexPosition L) (input L) = c # cs"
    using assms by (simp_all add: lexer_at_def rest_def)
  have lt: "lexPosition L < length (input L)"
    using r by (cases "lexPosition L < length (input L)") simp_all
  have c: "input L ! lexPosition L = c" and cs: "drop (Suc (lexPosition L)) (input L) = cs"
    using r Cons_nth_drop_Suc [OF lt] by simp_all
  show "currentChar L = Some c"
    using ok lt c by (simp add: lexer_ok_def)
  have "rest (advance L) = cs"
    using cs by (simp add: rest_def advance_def Let_def)
  moreover have "lexer_ok (advance L)"
    by (simp add: lexer_ok_def advance_def Let_def)
  moreover have "lexTokens (advance L) = ts"
    using assms by (simp add: lexer_at_def advance_def Let_def)
  ultimately show "lexer_at (advance L) cs ts"
    by (simp add: lexer_at_def)
  show "lexPeek L 1 = (case cs of [] \<Rightarrow> None | d # ds \<Rightarrow> Some d)"
  proof (cases cs)
    case Nil
    then have "length (input L) \<le> Suc (lexPosition L)"
      using cs by simp
    then show ?thesis using Nil by (simp add: lexPeek_def)
  next
    case (Cons d ds)
    then have lt2: "Suc (lexPosition L) < length (input L)"
      using cs by (cases "Suc (lexPosition L) < length (input L)") simp_all
    then have "input L ! Suc (lexPosition L) = d"
      using cs Cons Cons_nth_drop_Suc [OF lt2] by simp
    then show ?thesis using Cons lt2 by (simp add: lexPeek_def)
  qed
qed

lemma skipWhitespace_at:
  "lexer_at L xs ts \<Longrightarrow> lexer_at (skipWhitespace L) (dropWhile isWhitespace xs) ts"
proof (induction xs arbitrary: L)
  case Nil
  then show ?case
    using lexer_at_Nil [OF Nil] by (subst skipWhitespace.simps) simp
next
  case (Cons c cs)
  show ?case
    using lexer_at_Cons(1) [OF Cons.prems] Cons.IH [OF lexer_at_Cons(2) [OF Cons.prems]] Cons.prems
    by (subst skipWhitespace.simps) simp
qed

lemma processNumber_loop_at:
  "lexer_at L xs ts \<Longrightarrow>
     fst (processNumber_loop r h L) = r @ takeNumber h xs
     \<and> lexer_at (snd (processNumber_loop r h L)) (dropNumber h xs) ts"
proof (induction xs arbitrary: L r h)
  case Nil
  then show ?case
    using lexer_at_Nil [OF Nil] by (subst (1 2) processNumber_loop.simps) simp
next
  case (Cons c cs)
  show ?case
    using lexer_at_Cons(1) [OF Cons.prems] Cons.IH [OF lexer_at_Cons(2) [OF Cons.prems]] Cons.prems
    by (subst (1 2) processNumber_loop.simps) auto
qed

lemma processIdentifier_loop_at:
  "lexer_at L xs ts \<Longrightarrow>
     fst (processIdentifier_loop r L) = r @ takeWhile isIdentPart xs
     \<and> lexer_at (snd (processIdentifier_loop r L)) (dropWhile isIdentPart xs) ts"
proof (induction xs arbitrary: L r)
  case Nil
  then show ?case
    using lexer_at_Nil [OF Nil] by (subst (1 2) processIdentifier_loop.simps) simp
next
  case (Cons c cs)
  show ?case
    using lexer_at_Cons(1) [OF Cons.prems] Cons.IH [OF lexer_at_Cons(2) [OF Cons.prems]] Cons.prems
    by (subst (1 2) processIdentifier_loop.simps) auto
qed

lemma processCommand_loop_at:
  "lexer_at L xs ts \<Longrightarrow>
     fst (processCommand_loop r L) = r @ takeWhile isLetter xs
     \<and> lexer_at (snd (processCommand_loop r L)) (dropWhile isLetter xs) ts"
proof (induction xs arbitrary: L r)
  case Nil
  then show ?case
    using lexer_at_Nil [OF Nil] by (subst (1 2) processCommand_loop.simps) simp
next
  case (Cons c cs)
  show ?case
    using lexer_at_Cons(1) [OF Cons.prems] Cons.IH [OF lexer_at_Cons(2) [OF Cons.prems]] Cons.prems
    by (subst (1 2) processCommand_loop.simps) auto
qed


lemma processNumber_at:
  "lexer_at L xs ts \<Longrightarrow>
     fst (processNumber L) = mkToken Number (takeNumber False xs)
     \<and> lexer_at (snd (processNumber L)) (dropNumber False xs) ts"
  using processNumber_loop_at [of L xs ts "[]" False]
  by (simp add: processNumber_def split_beta)

lemma processIdentifier_at:
  "lexer_at L xs ts \<Longrightarrow>
     fst (processIdentifier L) = mkToken IdentifierT (takeWhile isIdentPart xs)
     \<and> lexer_at (snd (processIdentifier L)) (dropWhile isIdentPart xs) ts"
  using processIdentifier_loop_at [of L xs ts "[]"]
  by (simp add: processIdentifier_def split_beta)

lemma processCommand_at:
  assumes "lexer_at L (c # cs) ts"
  shows "fst (processCommand L) = mkToken Command (0x5C # takeWhile isLetter cs)
     \<and> lexer_at (snd (processCommand L)) (dropWhile isLetter cs) ts"
  using processCommand_loop_at [OF lexer_at_Cons(2) [OF assms], of "[0x5C]"]
  by (simp add: processCommand_def split_beta)

lemma operatorMap_not_EOF: "operatorMap c = Some t \<Longrightarrow> t \<noteq> EOF"
  by (auto simp: operatorMap_def split: if_splits)

lemma operatorToken_not_EOF: "tok_type (fst (operatorToken c cs)) \<noteq> EOF"
  by (auto simp: operatorToken_def mkToken_def split: option.splits dest: operatorMap_not_EOF)

lemma take1_eq: "take 1 cs = [d] \<longleftrightarrow> (\<exists>ds. cs = d # ds)"
  by (cases cs) auto

lemma processOperator_at:
  assumes "lexer_at L (c # cs) ts"
  shows "fst (processOperator L) = fst (operatorToken c cs)
     \<and> lexer_at (snd (processOperator L)) (snd (operatorToken c cs)) ts"
proof -
  note c = lexer_at_Cons [OF assms]
  show ?thesis
  proof (cases cs)
    case Nil
    then show ?thesis
      using c by (auto simp: processOperator_def operatorToken_def split: option.splits)
  next
    case (Cons d ds)
    then have "lexer_at (advance (advance L)) ds ts"
      using lexer_at_Cons(2) [of "advance L" d ds ts] c(2) by simp
    then show ?thesis
      using c Cons by (auto simp: processOperator_def operatorToken_def split: option.splits)
  qed
qed

lemma getNextToken_at_step:
  assumes "scan xs = t # scan xs'" and "fst g = t" and "tok_type t \<noteq> EOF"
    and "lexer_at (snd g) xs' ts"
  shows "case scan xs of
        [] \<Rightarrow> tok_type (fst g) = EOF \<and> lexTokens (snd g) = ts
      | t # tokens' \<Rightarrow>
          fst g = t \<and> tok_type t \<noteq> EOF
          \<and> (\<exists>xs'. lexer_at (snd g) xs' ts \<and> scan xs' = tokens')"
  using assms by auto

lemma getNextToken_at:
  "lexer_at L xs ts \<Longrightarrow>
     (case scan xs of
        [] \<Rightarrow> tok_type (fst (getNextToken L)) = EOF \<and> lexTokens (snd (getNextToken L)) = ts
      | t # tokens' \<Rightarrow>
          fst (getNextToken L) = t \<and> tok_type t \<noteq> EOF
          \<and> (\<exists>xs'. lexer_at (snd (getNextToken L)) xs' ts \<and> scan xs' = tokens'))"
proof (induction xs arbitrary: L rule: scan.induct)
  case 1
  then show ?case
    using lexer_at_Nil [OF 1] by (subst (1 2) getNextToken.simps) (simp add: mkToken_def lexer_at_def)
next
  case (2 c cs)
  note c = lexer_at_Cons [OF "2.prems"]
  let ?num = "isDigit c \<or> (c = 0x2E \<and> (case cs of [] \<Rightarrow> False | d # ds \<Rightarrow> isDigit d))"
  have peek: "(case lexPeek L 1 of None \<Rightarrow> False | Some d \<Rightarrow> isDigit d)
      = (case cs of [] \<Rightarrow> False | d # ds \<Rightarrow> isDigit d)"
    using c(3) by (simp split: list.splits)
  consider (ws) "isWhitespace c"
    | (num) "\<not> isWhitespace c" "?num"
    | (ident) "\<not> isWhitespace c" "\<not> ?num" "isIdentStart c"
    | (cmd) "\<not> isWhitespace c" "\<not> ?num" "\<not> isIdentStart c" "c = 0x5C"
    | (op) "\<not> isWhitespace c" "\<not> ?num" "\<not> isIdentStart c" "c \<noteq> 0x5C"
    by blast
  then show ?case
  proof cases
    case ws
    have eq: "getNextToken L = getNextToken (skipWhitespace L)"
      using c(1) ws by (subst getNextToken.simps) simp
    have at: "lexer_at (skipWhitespace L) (dropWhile isWhitespace cs) ts"
      using skipWhitespace_at [OF "2.prems"] ws by simp
    have sc: "scan (c # cs) = scan (dropWhile isWhitespace cs)"
      using ws by (simp add: scan.simps(2) [of c cs])
    from "2.IH"(1) [OF ws at] show ?thesis
      unfolding eq sc .
  next
    case num
    have eq: "getNextToken L = processNumber L"
      using c(1) num peek by (subst getNextToken.simps) auto
    have sc: "scan (c # cs)
        = mkToken Number (takeNumber False (c # cs)) # scan (dropNumber False (c # cs))"
      using num by (subst scan.simps(2)) auto
    show ?thesis
    proof (rule getNextToken_at_step [OF sc])
      show "fst (getNextToken L) = mkToken Number (takeNumber False (c # cs))"
        unfolding eq using processNumber_at [OF "2.prems"] by (rule conjunct1)
      show "lexer_at (snd (getNextToken L)) (dropNumber False (c # cs)) ts"
        unfolding eq using processNumber_at [OF "2.prems"] by (rule conjunct2)
    qed (simp add: mkToken_def)
  next
    case ident
    have eq: "getNextToken L = processIdentifier L"
      using c(1) ident peek by (subst getNextToken.simps) auto
    have sc: "scan (c # cs)
        = mkToken IdentifierT (takeWhile isIdentPart (c # cs))
            # scan (dropWhile isIdentPart (c # cs))"
      using ident by (subst scan.simps(2)) auto
    show ?thesis
    proof (rule getNextToken_at_step [OF sc])
      show "fst (getNextToken L) = mkToken IdentifierT (takeWhile isIdentPart (c # cs))"
        unfolding eq using processIdentifier_at [OF "2.prems"] by (rule conjunct1)
      show "lexer_at (snd (getNextToken L)) (dropWhile isIdentPart (c # cs)) ts"
        unfolding eq using processIdentifier_at [OF "2.prems"] by (rule conjunct2)
    qed (simp add: mkToken_def)
  next
    case cmd
    have eq: "getNextToken L = processCommand L"
      using c(1) cmd peek by (subst getNextToken.simps) auto
    have sc: "scan (c # cs)
        = mkToken Command (0x5C # takeWhile isLetter cs) # scan (dropWhile isLetter cs)"
      using cmd by (subst scan.simps(2)) auto
    show ?thesis
    proof (rule getNextToken_at_step [OF sc])
      show "fst (getNextToken L) = mkToken Command (0x5C # takeWhile isLetter cs)"
        unfolding eq using processCommand_at [OF "2.prems"] by (rule conjunct1)
      show "lexer_at (snd (getNextToken L)) (dropWhile isLetter cs) ts"
        unfolding eq using processCommand_at [OF "2.prems"] by (rule conjunct2)
    qed (simp add: mkToken_def)
  next
    case op
    have eq: "getNextToken L = processOperator L"
      using c(1) op peek by (subst getNextToken.simps) auto
    have sc: "scan (c # cs) = fst (operatorToken c cs) # scan (snd (operatorToken c cs))"
      using op by (subst scan.simps(2)) auto
    show ?thesis
    proof (rule getNextToken_at_step [OF sc])
      show "fst (getNextToken L) = fst (operatorToken c cs)"
        unfolding eq using processOperator_at [OF "2.prems"] by (rule conjunct1)
      show "lexer_at (snd (getNextToken L)) (snd (operatorToken c cs)) ts"
        unfolding eq using processOperator_at [OF "2.prems"] by (rule conjunct2)
    qed (rule operatorToken_not_EOF)
  qed
qed

lemma tokenize_loop_at:
  "lexer_at L xs ts \<Longrightarrow>
     lexTokens (tokenize_loop token L)
       = ts @ (if tok_type token = EOF then [] else token # scan xs)"
proof (induction token L arbitrary: xs ts rule: tokenize_loop.induct)
  case (1 token L)
  show ?case
  proof (cases "tok_type token = EOF")
    case True
    then show ?thesis
      using "1.prems" by (subst tokenize_loop.simps) (simp add: lexer_at_def)
  next
    case False
    define L2 where "L2 = L\<lparr>lexTokens := lexTokens L @ [token]\<rparr>"
    obtain token' L' where g: "getNextToken L2 = (token', L')"
      by (cases "getNextToken L2")
    have at2: "lexer_at L2 xs (ts @ [token])"
      using "1.prems" by (simp add: L2_def lexer_at_def lexer_ok_def rest_def)
    have unfold: "tokenize_loop token L = tokenize_loop token' L'"
      using False g by (subst tokenize_loop.simps) (simp add: L2_def)
    show ?thesis
    proof (cases "scan xs")
      case Nil
      then have e: "tok_type token' = EOF" "lexTokens L' = ts @ [token]"
        using getNextToken_at [OF at2] g by simp_all
      then have "tokenize_loop token' L' = L'"
        by (subst tokenize_loop.simps) simp
      then show ?thesis
        using False Nil unfold e by simp
    next
      case (Cons t tokens')
      then obtain xs' where t: "token' = t" "tok_type t \<noteq> EOF"
        and at': "lexer_at L' xs' (ts @ [token])" and sc: "scan xs' = tokens'"
        using getNextToken_at [OF at2] g by auto
      have "lexTokens (tokenize_loop token' L')
          = (ts @ [token]) @ (if tok_type token' = EOF then [] else token' # scan xs')"
        using "1.IH" [OF False g [unfolded L2_def, symmetric] at'] .
      then show ?thesis
        using False Cons t sc unfold by simp
    qed
  qed
qed

theorem lex_js_scan: "lex_js s = scan s"
proof -
  obtain token L' where g: "getNextToken (newLexer s) = (token, L')"
    by (cases "getNextToken (newLexer s)")
  show ?thesis
  proof (cases "scan s")
    case Nil
    then have "tok_type token = EOF" "lexTokens L' = []"
      using getNextToken_at [OF lexer_at_newLexer [of s]] g by simp_all
    then show ?thesis
      using Nil g by (simp add: lex_js_def tokenize_def tokenize_loop.simps [of token L'])
  next
    case (Cons t tokens')
    then obtain xs' where "token = t" "tok_type t \<noteq> EOF"
      and "lexer_at L' xs' []" and "scan xs' = tokens'"
      using getNextToken_at [OF lexer_at_newLexer [of s]] g by auto
    then show ?thesis
      using Cons g tokenize_loop_at [of L' xs' "[]" token]
      by (simp add: lex_js_def tokenize_def)
  qed
qed

section \<open>What the token sequence holds\<close>

lemma isDigit_not_isWhitespace: "isDigit c \<Longrightarrow> \<not> isWhitespace c"
  unfolding isDigit_def isWhitespace_def
  by (auto simp: word_le_nat_alt)

lemma isLetter_not_isWhitespace: "isLetter c \<Longrightarrow> \<not> isWhitespace c"
  unfolding isLetter_def isWhitespace_def
  by (auto simp: word_le_nat_alt)

lemma isIdentPart_not_isWhitespace: "isIdentPart c \<Longrightarrow> \<not> isWhitespace c"
  using isDigit_not_isWhitespace [of c] isLetter_not_isWhitespace [of c]
  by (auto simp: isIdentPart_def) (simp_all add: isWhitespace_def)

lemma operatorMap_not_Unknown: "operatorMap c = Some t \<Longrightarrow> t \<noteq> Unknown"
  by (auto simp: operatorMap_def split: if_splits)

lemma operatorMap_dot: "operatorMap 0x2E = Some Dot"
  by (simp add: operatorMap_def)

lemma isIdentPart_cases: "isIdentPart c \<Longrightarrow> isDigit c \<or> isIdentStart c"
  by (auto simp: isIdentPart_def isIdentStart_def)

lemma unmatchedChars_skip:
  "(\<forall>x \<in> set xs. \<not> ruleless x) \<Longrightarrow> unmatchedChars (xs @ ys) = unmatchedChars ys"
  by (induction xs) auto

lemma filter_keep:
  "(\<forall>x \<in> set xs. P x) \<Longrightarrow> filter P (xs @ ys) = xs @ filter P ys"
  by (induction xs) auto

lemma filter_drop:
  "(\<forall>x \<in> set xs. \<not> P x) \<Longrightarrow> filter P (xs @ ys) = filter P ys"
  by (induction xs) auto

lemma scan_Cons_cases:
  obtains (ws) "isWhitespace c" "scan (c # cs) = scan (dropWhile isWhitespace cs)"
  | (num) "\<not> isWhitespace c"
      "isDigit c \<or> (c = 0x2E \<and> (case cs of [] \<Rightarrow> False | d # ds \<Rightarrow> isDigit d))"
      "scan (c # cs)
        = mkToken Number (takeNumber False (c # cs)) # scan (dropNumber False (c # cs))"
  | (ident) "\<not> isWhitespace c"
      "\<not> (isDigit c \<or> (c = 0x2E \<and> (case cs of [] \<Rightarrow> False | d # ds \<Rightarrow> isDigit d)))"
      "isIdentStart c"
      "scan (c # cs)
        = mkToken IdentifierT (takeWhile isIdentPart (c # cs))
            # scan (dropWhile isIdentPart (c # cs))"
  | (cmd) "\<not> isWhitespace c"
      "\<not> (isDigit c \<or> (c = 0x2E \<and> (case cs of [] \<Rightarrow> False | d # ds \<Rightarrow> isDigit d)))"
      "\<not> isIdentStart c" "c = 0x5C"
      "scan (c # cs)
        = mkToken Command (0x5C # takeWhile isLetter cs) # scan (dropWhile isLetter cs)"
  | (op) "\<not> isWhitespace c"
      "\<not> (isDigit c \<or> (c = 0x2E \<and> (case cs of [] \<Rightarrow> False | d # ds \<Rightarrow> isDigit d)))"
      "\<not> isIdentStart c" "c \<noteq> 0x5C"
      "scan (c # cs) = fst (operatorToken c cs) # scan (snd (operatorToken c cs))"
proof -
  let ?num = "isDigit c \<or> (c = 0x2E \<and> (case cs of [] \<Rightarrow> False | d # ds \<Rightarrow> isDigit d))"
  consider (a) "isWhitespace c"
    | (b) "\<not> isWhitespace c" "?num"
    | (c) "\<not> isWhitespace c" "\<not> ?num" "isIdentStart c"
    | (d) "\<not> isWhitespace c" "\<not> ?num" "\<not> isIdentStart c" "c = 0x5C"
    | (e) "\<not> isWhitespace c" "\<not> ?num" "\<not> isIdentStart c" "c \<noteq> 0x5C"
    by blast
  then show thesis
  proof cases
    case a
    then show ?thesis by (intro ws) (simp_all add: scan.simps(2) [of c cs])
  next
    case b
    have "scan (c # cs)
        = mkToken Number (takeNumber False (c # cs)) # scan (dropNumber False (c # cs))"
      using b by (subst scan.simps(2)) (simp only: if_True if_False)
    with b show ?thesis by (intro num)
  next
    case c
    have "scan (c # cs)
        = mkToken IdentifierT (takeWhile isIdentPart (c # cs))
            # scan (dropWhile isIdentPart (c # cs))"
      using c by (subst scan.simps(2)) (simp only: if_True if_False)
    with c show ?thesis by (intro ident)
  next
    case d
    have "scan (c # cs)
        = mkToken Command (0x5C # takeWhile isLetter cs) # scan (dropWhile isLetter cs)"
      using d by (subst scan.simps(2)) simp
    with d show ?thesis by (intro cmd)
  next
    case e
    have "scan (c # cs) = fst (operatorToken c cs) # scan (snd (operatorToken c cs))"
      using e by (subst scan.simps(2)) (simp only: if_True if_False)
    with e show ?thesis by (intro op)
  qed
qed



lemma scan_not_EOF: "t \<in> set (scan s) \<Longrightarrow> tok_type t \<noteq> EOF"
proof (induction s rule: scan.induct)
  case 1
  then show ?case by simp
next
  case (2 c cs)
  show ?case
  proof (cases c cs rule: scan_Cons_cases)
    case ws
    have "t \<in> set (scan (dropWhile isWhitespace cs))"
      using "2.prems" unfolding ws(2) .
    then show ?thesis by (rule "2.IH"(1) [OF ws(1)])
  next
    case num
    have "t = mkToken Number (takeNumber False (c # cs)) \<or> t \<in> set (scan (dropNumber False (c # cs)))"
      using "2.prems" unfolding num(3) by simp
    then show ?thesis
      using "2.IH"(2) [OF num(1,2)] by (auto simp: mkToken_def)
  next
    case ident
    have "t = mkToken IdentifierT (takeWhile isIdentPart (c # cs))
        \<or> t \<in> set (scan (dropWhile isIdentPart (c # cs)))"
      using "2.prems" unfolding ident(4) by simp
    then show ?thesis
      using "2.IH"(3) [OF ident(1,2,3)] by (auto simp: mkToken_def)
  next
    case cmd
    have "t = mkToken Command (0x5C # takeWhile isLetter cs)
        \<or> t \<in> set (scan (dropWhile isLetter cs))"
      using "2.prems" unfolding cmd(5) by simp
    then show ?thesis
      using "2.IH"(4) [OF cmd(1,2,3,4)] by (auto simp: mkToken_def)
  next
    case op
    have "t = fst (operatorToken c cs) \<or> t \<in> set (scan (snd (operatorToken c cs)))"
      using "2.prems" unfolding op(5) by simp
    then show ?thesis
      using "2.IH"(5) [OF op(1,2,3,4)] operatorToken_not_EOF [of c cs] by blast
  qed
qed

lemma operatorMap_consts:
  "operatorMap 0x3C = Some LessThan" "operatorMap 0x3E = Some GreaterThan"
  "operatorMap 0x3D = Some Equals" "operatorMap 0x21 = None"
  by (simp_all add: operatorMap_def)

lemma not_ruleless_operator: "operatorMap c = Some t \<Longrightarrow> \<not> ruleless c"
  by (simp add: ruleless_def)

lemma unmatchedChars_pair:
  assumes "\<not> ruleless c \<or> c = 0x21"
  shows "unmatchedChars (c # 0x3D # ds) = unmatchedChars ds"
proof -
  have "\<not> ruleless 0x3D"
    by (rule not_ruleless_operator) (rule operatorMap_consts)
  then show ?thesis
    using assms by auto
qed

lemma operatorToken_unmatched:
  assumes "\<not> isWhitespace c" "\<not> isDigit c" "\<not> isIdentStart c" "c \<noteq> 0x5C"
  shows "unmatchedChars (c # cs)
     = (if tok_type (fst (operatorToken c cs)) = Unknown then [c] else [])
       @ unmatchedChars (snd (operatorToken c cs))"
    and "tok_type (fst (operatorToken c cs)) = Unknown \<Longrightarrow>
       fst (operatorToken c cs) = mkToken Unknown [c]"
proof -
  consider (two) ds where "c = 0x3C \<or> c = 0x3E \<or> c = 0x21" "cs = 0x3D # ds"
    | (some) t where "\<not> ((c = 0x3C \<or> c = 0x3E \<or> c = 0x21) \<and> take 1 cs = [0x3D])"
        "operatorMap c = Some t"
    | (none) "\<not> ((c = 0x3C \<or> c = 0x3E \<or> c = 0x21) \<and> take 1 cs = [0x3D])"
        "operatorMap c = None"
    unfolding take1_eq by (cases "operatorMap c") blast+
  then have "unmatchedChars (c # cs)
     = (if tok_type (fst (operatorToken c cs)) = Unknown then [c] else [])
       @ unmatchedChars (snd (operatorToken c cs))
     \<and> (tok_type (fst (operatorToken c cs)) = Unknown \<longrightarrow>
       fst (operatorToken c cs) = mkToken Unknown [c])"
  proof cases
    case two
    have nr: "\<not> ruleless c \<or> c = 0x21"
      using two(1) not_ruleless_operator operatorMap_consts(1,2) by blast
    have ty: "tok_type (fst (operatorToken c cs)) \<noteq> Unknown"
      and sn: "snd (operatorToken c cs) = ds"
      using two by (auto simp: operatorToken_def mkToken_def)
    show ?thesis
      unfolding sn using ty unmatchedChars_pair [OF nr, of ds] two(2) by simp
  next
    case some
    have ot: "operatorToken c cs = (mkToken t [c], cs)"
      using some by (auto simp: operatorToken_def)
    have "t \<noteq> Unknown"
      using some(2) by (rule operatorMap_not_Unknown)
    then show ?thesis
      unfolding ot using not_ruleless_operator [OF some(2)] by (simp add: mkToken_def)
  next
    case none
    have ot: "operatorToken c cs = (mkToken Unknown [c], cs)"
      using none by (auto simp: operatorToken_def)
    have "ruleless c"
      using assms none(2) by (simp add: ruleless_def)
    then show ?thesis
      unfolding ot using none(1) by (auto simp: mkToken_def)
  qed
  then show "unmatchedChars (c # cs)
     = (if tok_type (fst (operatorToken c cs)) = Unknown then [c] else [])
       @ unmatchedChars (snd (operatorToken c cs))"
    and "tok_type (fst (operatorToken c cs)) = Unknown \<Longrightarrow>
       fst (operatorToken c cs) = mkToken Unknown [c]"
    by blast+
qed

lemma not_ruleless_number: "x \<in> set (takeNumber h xs) \<Longrightarrow> \<not> ruleless x"
  by (auto dest!: takeNumber_chars simp: ruleless_def operatorMap_dot)

lemma not_ruleless_identifier: "x \<in> set (takeWhile isIdentPart xs) \<Longrightarrow> \<not> ruleless x"
  by (auto dest!: set_takeWhileD isIdentPart_cases simp: ruleless_def)

lemma not_ruleless_letters: "x \<in> set (takeWhile isLetter xs) \<Longrightarrow> \<not> ruleless x"
  by (auto dest!: set_takeWhileD simp: ruleless_def isIdentStart_def)

lemma not_ruleless_whitespace: "x \<in> set (takeWhile isWhitespace xs) \<Longrightarrow> \<not> ruleless x"
  by (auto dest!: set_takeWhileD simp: ruleless_def)

lemma scan_Unknown:
  "filter (\<lambda>t. tok_type t = Unknown) (scan s) = map (\<lambda>c. mkToken Unknown [c]) (unmatchedChars s)"
proof (induction s rule: scan.induct)
  case 1
  then show ?case by simp
next
  case (2 c cs)
  show ?case
  proof (cases c cs rule: scan_Cons_cases)
    case ws
    have "unmatchedChars (c # cs) = unmatchedChars (takeWhile isWhitespace cs @ dropWhile isWhitespace cs)"
      using ws(1) by (simp add: ruleless_def)
    also have "\<dots> = unmatchedChars (dropWhile isWhitespace cs)"
      by (rule unmatchedChars_skip) (blast dest: not_ruleless_whitespace)
    finally have u: "unmatchedChars (c # cs) = unmatchedChars (dropWhile isWhitespace cs)" .
    show ?thesis
      unfolding ws(2) u by (rule "2.IH"(1) [OF ws(1)])
  next
    case num
    have "unmatchedChars (c # cs)
        = unmatchedChars (takeNumber False (c # cs) @ dropNumber False (c # cs))"
      by (simp only: takeNumber_dropNumber)
    also have "\<dots> = unmatchedChars (dropNumber False (c # cs))"
      by (rule unmatchedChars_skip) (blast dest: not_ruleless_number)
    finally have u: "unmatchedChars (c # cs) = unmatchedChars (dropNumber False (c # cs))" .
    show ?thesis
      unfolding num(3) u using "2.IH"(2) [OF num(1,2)] by (simp add: mkToken_def)
  next
    case ident
    have "unmatchedChars (c # cs)
        = unmatchedChars (takeWhile isIdentPart (c # cs) @ dropWhile isIdentPart (c # cs))"
      by (simp only: takeWhile_dropWhile_id)
    also have "\<dots> = unmatchedChars (dropWhile isIdentPart (c # cs))"
      by (rule unmatchedChars_skip) (blast dest: not_ruleless_identifier)
    finally have u: "unmatchedChars (c # cs) = unmatchedChars (dropWhile isIdentPart (c # cs))" .
    show ?thesis
      unfolding ident(4) u using "2.IH"(3) [OF ident(1,2,3)] by (simp add: mkToken_def)
  next
    case cmd
    have "unmatchedChars (c # cs) = unmatchedChars (takeWhile isLetter cs @ dropWhile isLetter cs)"
      using cmd(4) by (simp add: ruleless_def)
    also have "\<dots> = unmatchedChars (dropWhile isLetter cs)"
      by (rule unmatchedChars_skip) (blast dest: not_ruleless_letters)
    finally have u: "unmatchedChars (c # cs) = unmatchedChars (dropWhile isLetter cs)" .
    show ?thesis
      unfolding cmd(5) u using "2.IH"(4) [OF cmd(1,2,3,4)] by (simp add: mkToken_def)
  next
    case op
    have nd: "\<not> isDigit c"
      using op(2) by simp
    show ?thesis
      unfolding op(5) operatorToken_unmatched(1) [OF op(1) nd op(3,4)]
      using "2.IH"(5) [OF op(1,2,3,4)] operatorToken_unmatched(2) [OF op(1) nd op(3,4), of cs]
      by simp
  qed
qed


section \<open>The lexer never fails\<close>

text \<open>
  Claim C5.  \<^verbatim>\<open>tokenize\<close> is total: the model of its loop is a total function (its
  termination is proved where it is defined, every token other than EOF having
  consumed a character), and no branch of the lexer raises.  For every input, the
  Unknown tokens of the returned sequence are, in order, the characters of the input
  that no rule matches, each as the one-character text of its token; and no token of
  the returned sequence is the EOF token.
\<close>

theorem C5_tokenize_total:
  "filter (\<lambda>t. tok_type t = Unknown) (tokenize (newLexer s))
     = map (\<lambda>c. mkToken Unknown [c]) (unmatchedChars s)
   \<and> (\<forall>t \<in> set (tokenize (newLexer s)). tok_type t \<noteq> EOF)"
proof -
  have "tokenize (newLexer s) = scan s"
    using lex_js_scan [of s] by (simp add: lex_js_def)
  then show ?thesis
    using scan_Unknown [of s] scan_not_EOF [of _ s] by simp
qed

theorem C5_tokenize_total_witness:
  "tokenize (newLexer (js ''2 # x!=?''))
     = [mkToken Number (js ''2''), mkToken Unknown (js ''#''), mkToken IdentifierT (js ''x''),
        mkToken NotEqual (js ''!=''), mkToken Unknown (js ''?'')]
   \<and> filter (\<lambda>t. tok_type t = Unknown) (tokenize (newLexer (js ''2 # x!=?'')))
     = [mkToken Unknown (js ''#''), mkToken Unknown (js ''?'')]
   \<and> map tok_type (tokenize (newLexer (js ''2 # x!=?'')))
     = [Number, Unknown, IdentifierT, NotEqual, Unknown]"
proof -
  have v: "tokenize (newLexer (js ''2 # x!=?''))
     = [mkToken Number (js ''2''), mkToken Unknown (js ''#''), mkToken IdentifierT (js ''x''),
        mkToken NotEqual (js ''!=''), mkToken Unknown (js ''?'')]"
    by code_simp
  have u: "map (\<lambda>c. mkToken Unknown [c]) (unmatchedChars (js ''2 # x!=?''))
     = [mkToken Unknown (js ''#''), mkToken Unknown (js ''?'')]"
    by code_simp
  show ?thesis
    using C5_tokenize_total [of "js ''2 # x!=?''"] unfolding u
    by (simp add: v mkToken_def)
qed

section \<open>The lexer on a rendering\<close>

lemma separated_Cons: "separated (c # cs) \<longleftrightarrow> \<not> isIdentPart c \<and> c \<noteq> 0x2E"
  by (simp add: separated_def)

lemma separated_Nil: "separated []"
  by (simp add: separated_def)

lemma isIdentPart_isDigit: "isDigit c \<Longrightarrow> isIdentPart c"
  by (simp add: isIdentPart_def)

lemma takeNumber_stop: "separated R \<Longrightarrow> takeNumber h R = [] \<and> dropNumber h R = R"
  by (cases R) (auto simp: separated_Cons isIdentPart_isDigit)

lemma takeNumber_append:
  "takeNumber h v = v \<Longrightarrow> separated R \<Longrightarrow>
     takeNumber h (v @ R) = v \<and> dropNumber h (v @ R) = R"
proof (induction v arbitrary: h)
  case Nil
  then show ?case
    using takeNumber_stop [of R h] by simp
next
  case (Cons c cs)
  have step: "isDigit c \<or> (c = 0x2E \<and> \<not> h)"
    using Cons.prems(1) by (simp split: if_splits)
  then have "takeNumber (c = 0x2E \<or> h) cs = cs"
    using Cons.prems(1) by simp
  from Cons.IH [OF this Cons.prems(2)] step show ?case
    by simp
qed

lemma scan_number:
  assumes "numberText v" "separated R"
  shows "scan (v @ R) = mkToken Number v # scan R"
proof -
  obtain c cs where v: "v = c # cs"
    and start: "isDigit c \<or> (c = 0x2E \<and> (case cs of [] \<Rightarrow> False | d # ds \<Rightarrow> isDigit d))"
    and tk: "takeNumber False v = v"
    using assms(1) by (cases v) (simp_all add: numberText_def)
  have nw: "\<not> isWhitespace c"
  proof (cases "isDigit c")
    case True
    then show ?thesis by (rule isDigit_not_isWhitespace)
  next
    case False
    then have "c = 0x2E" using start by blast
    then show ?thesis by (simp add: isWhitespace_def)
  qed
  have start': "isDigit c \<or> (c = 0x2E \<and> (case cs @ R of [] \<Rightarrow> False | d # ds \<Rightarrow> isDigit d))"
    using start by (cases cs) simp_all
  have "scan (c # cs @ R)
      = mkToken Number (takeNumber False (c # cs @ R)) # scan (dropNumber False (c # cs @ R))"
    using nw start' by (subst scan.simps(2)) (simp only: if_True if_False)
  moreover have "takeNumber False (c # cs @ R) = v" "dropNumber False (c # cs @ R) = R"
    using takeNumber_append [OF tk assms(2)] by (simp_all only: v append_Cons)
  ultimately show ?thesis
    by (simp only: v append_Cons)
qed

lemma isLetter_not_isDigit: "isLetter c \<Longrightarrow> \<not> isDigit c \<and> c \<noteq> 0x2E"
  unfolding isLetter_def isDigit_def by (auto simp: word_le_nat_alt)

lemma isIdentStart_facts:
  assumes "isIdentStart c"
  shows "\<not> isWhitespace c" "\<not> isDigit c" "c \<noteq> 0x2E" "isIdentPart c"
proof -
  show p: "isIdentPart c"
    using assms by (auto simp: isIdentStart_def isIdentPart_def)
  show "\<not> isWhitespace c"
    using p by (rule isIdentPart_not_isWhitespace)
  consider "isLetter c" | "c = 0x3C0" | "c = 0x5F"
    using assms by (auto simp: isIdentStart_def)
  then show "\<not> isDigit c"
  proof cases
    case 1
    then show ?thesis by (simp add: isLetter_not_isDigit)
  qed (simp_all add: isDigit_def)
  consider "isLetter c" | "c = 0x3C0" | "c = 0x5F"
    using assms by (auto simp: isIdentStart_def)
  then show "c \<noteq> 0x2E"
    by cases (simp_all add: isLetter_not_isDigit)
qed

lemma takeWhile_separated:
  assumes "\<forall>x \<in> set v. isIdentPart x" "separated R"
  shows "takeWhile isIdentPart (v @ R) = v" "dropWhile isIdentPart (v @ R) = R"
proof -
  have "takeWhile isIdentPart R = []" "dropWhile isIdentPart R = R"
    using assms(2) by (cases R; simp add: separated_Cons)+
  then show "takeWhile isIdentPart (v @ R) = v" "dropWhile isIdentPart (v @ R) = R"
    using assms(1) by (simp_all add: takeWhile_append2 dropWhile_append2)
qed

lemma scan_identifier:
  assumes "identifierText v" "separated R"
  shows "scan (v @ R) = mkToken IdentifierT v # scan R"
proof -
  obtain c cs where v: "v = c # cs" and start: "isIdentStart c" and part: "list_all isIdentPart cs"
    using assms(1) by (cases v) (simp_all add: identifierText_def)
  note f = isIdentStart_facts [OF start]
  have all: "\<forall>x \<in> set v. isIdentPart x"
    using f(4) part by (simp add: v list_all_iff)
  have num: "\<not> (isDigit c \<or> (c = 0x2E \<and> (case cs @ R of [] \<Rightarrow> False | d # ds \<Rightarrow> isDigit d)))"
    using f(2,3) by simp
  have "scan (c # cs @ R)
      = mkToken IdentifierT (takeWhile isIdentPart (c # cs @ R))
          # scan (dropWhile isIdentPart (c # cs @ R))"
    using f(1) num start by (subst scan.simps(2)) (simp only: if_True if_False)
  moreover have "takeWhile isIdentPart (c # cs @ R) = v" "dropWhile isIdentPart (c # cs @ R) = R"
    using takeWhile_separated [OF all assms(2)] by (simp_all only: v append_Cons)
  ultimately show ?thesis
    by (simp only: v append_Cons)
qed

lemma noEquals_Cons: "noEquals (c # cs) \<longleftrightarrow> c \<noteq> 0x3D"
  by (simp add: noEquals_def)

lemma take1_noEquals: "noEquals R \<Longrightarrow> take 1 R \<noteq> [0x3D]"
  by (cases R) (simp_all add: noEquals_def)

lemma scan_single:
  assumes "operatorMap c = Some ty" "c \<noteq> 0x2E" "c \<noteq> 0x3C \<and> c \<noteq> 0x3E \<or> noEquals R"
  shows "scan (c # R) = mkToken ty [c] # scan R"
proof -
  have cases: "c \<in> {0x2B, 0x2D, 0x2A, 0x2F, 0x5E, 0x3D, 0x28, 0x29, 0x5B, 0x5D, 0x7B, 0x7D, 0x2C,
      0x3B, 0x3C, 0x3E}"
    using assms(1,2) by (simp add: operatorMap_def split: if_splits)
  have nw: "\<not> isWhitespace c"
    using cases by (auto simp: isWhitespace_def)
  have nd: "\<not> isDigit c"
    using cases by (auto simp: isDigit_def)
  have ni: "\<not> isIdentStart c"
    using cases by (auto simp: isIdentStart_def isLetter_def)
  have nb: "c \<noteq> 0x5C" "c \<noteq> 0x21"
    using cases by auto
  have ot: "operatorToken c R = (mkToken ty [c], R)"
    using assms(1,3) nb(2) take1_noEquals [of R] by (auto simp: operatorToken_def)
  have "scan (c # R) = fst (operatorToken c R) # scan (snd (operatorToken c R))"
    using nw nd ni nb(1) assms(2) by (subst scan.simps(2)) (simp only: if_True if_False simp_thms)
  then show ?thesis
    by (simp add: ot)
qed

lemma scan_double:
  assumes "c = 0x3C \<or> c = 0x3E \<or> c = 0x21"
  shows "scan (c # 0x3D # R) = fst (operatorToken c (0x3D # R)) # scan R"
proof -
  have nw: "\<not> isWhitespace c"
    using assms by (auto simp: isWhitespace_def)
  have nd: "\<not> isDigit c"
    using assms by (auto simp: isDigit_def)
  have ni: "\<not> isIdentStart c"
    using assms by (auto simp: isIdentStart_def isLetter_def)
  have nb: "c \<noteq> 0x5C" "c \<noteq> 0x2E"
    using assms by auto
  have sn: "snd (operatorToken c (0x3D # R)) = R"
    using assms by (auto simp: operatorToken_def)
  have "scan (c # 0x3D # R)
      = fst (operatorToken c (0x3D # R)) # scan (snd (operatorToken c (0x3D # R)))"
    using nw nd ni nb by (subst scan.simps(2)) (simp only: if_True if_False simp_thms)
  then show ?thesis
    by (simp only: sn)
qed

lemma scan_operator:
  assumes "operator \<in> set operatorTexts" "noEquals R"
  shows "scan (operator @ R) = operatorTokenOf operator # scan R"
proof -
  consider (single) c where "operator = [c]"
      "c \<in> {0x5E, 0x2A, 0x2F, 0x2B, 0x2D, 0x3C, 0x3E, 0x3D}"
    | (double) c where "operator = [c, 0x3D]" "c = 0x3C \<or> c = 0x3E \<or> c = 0x21"
    using assms(1) by (auto simp: operatorTexts_def js_def)
  then show ?thesis
  proof cases
    case single
    obtain ty where ty: "operatorMap c = Some ty"
      using single(2) by (auto simp: operatorMap_def)
    have "c \<noteq> 0x2E" "c \<noteq> 0x21"
      using single(2) by auto
    then have "scan (c # R) = mkToken ty [c] # scan R"
      and "operatorTokenOf [c] = mkToken ty [c]"
      using ty assms(2) by (simp_all add: scan_single operatorTokenOf_def operatorToken_def)
    then show ?thesis
      by (simp add: single(1))
  next
    case double
    then show ?thesis
      using scan_double [OF double(2), of R]
      by (auto simp: operatorTokenOf_def operatorToken_def)
  qed
qed

lemma separated_operator: "operator \<in> set operatorTexts \<Longrightarrow> separated (operator @ X)"
  by (auto simp: operatorTexts_def js_def separated_Cons isIdentPart_def isLetter_def isDigit_def)

lemma separated_punctuation:
  "separated (0x29 # X)" "separated (0x5D # X)" "separated (0x2C # X)"
  by (simp_all add: separated_Cons isIdentPart_def isLetter_def isDigit_def)

lemma identifierText_not_greek:
  assumes "identifierText v"
  shows "v \<noteq> [0x3C4]" "v \<noteq> [0x3C6]"
  using assms by (auto simp: identifierText_def isIdentStart_def isLetter_def)

lemma join_comma:
  "concat (map (\<lambda>x. c # x) xs) = (if xs = [] then [] else c # join [c] xs)"
  by (induction "[c]" xs rule: join.induct) simp_all

lemma operator_binary:
  "operator \<in> set [js ''^'', js ''*'', js ''/'', js ''+'', js ''-''] \<Longrightarrow>
     operator \<in> set operatorTexts"
  by (auto simp: operatorTexts_def)

lemma operator_comparison:
  "operator \<in> set [js ''<'', js ''>'', js ''<='', js ''>='', js ''='', js ''!=''] \<Longrightarrow>
     operator \<in> set operatorTexts"
  by (auto simp: operatorTexts_def)

lemma operator_unary:
  "operator \<in> set [js ''+'', js ''-''] \<Longrightarrow> operator \<in> set operatorTexts"
  by (auto simp: operatorTexts_def)

lemma astToString_binary:
  "wellFormed (BinaryExpression operator l r) \<Longrightarrow>
     astToString (BinaryExpression operator l r) = astToString l @ operator @ astToString r"
  by (simp add: Let_def)

lemma astToString_unary:
  "wellFormed (UnaryExpression operator operand) \<Longrightarrow>
     astToString (UnaryExpression operator operand) = operator @ astToString operand"
  by simp

lemma astToString_identifier:
  "wellFormed (Identifier v) \<Longrightarrow> astToString (Identifier v) = v"
  using identifierText_not_greek [of v] by simp

text \<open>The rendering of a well-formed tree starts with a character other than the equals sign.\<close>

lemma astToString_start:
  "wellFormed a \<Longrightarrow> \<exists>c cs. astToString a = c # cs \<and> c \<noteq> 0x3D"
proof (induction a)
  case (NumberLiteral v)
  then show ?case
    by (cases v) (auto simp: numberText_def isDigit_def)
next
  case (Identifier v)
  then have "identifierText v" by simp
  then obtain c cs where "v = c # cs" "isIdentStart c"
    by (cases v) (simp_all add: identifierText_def)
  moreover from this have "c \<noteq> 0x3D"
    by (auto simp: isIdentStart_def isLetter_def)
  ultimately show ?case
    using astToString_identifier [OF Identifier] by simp
next
  case (BinaryExpression operator l r)
  then show ?case
    using astToString_binary [OF BinaryExpression.prems] by auto
next
  case (UnaryExpression operator operand)
  have "operator = js ''+'' \<or> operator = js ''-''"
    using UnaryExpression.prems by simp
  then show ?case
    using astToString_unary [OF UnaryExpression.prems] by (auto simp: js_def)
next
  case (ComparisonExpression operator l r)
  then show ?case by auto
next
  case (AssignmentExpression operator l r)
  then show ?case by auto
qed (simp_all add: js_def)

lemma astToString_noEquals: "wellFormed a \<Longrightarrow> noEquals (astToString a @ R)"
  using astToString_start [of a] by (auto simp: noEquals_Cons)

lemma scan_elements:
  assumes "\<And>e R. e \<in> set es \<Longrightarrow> separated R \<Longrightarrow> scan (astToString e @ R) = toks e @ scan R"
    and "separated R"
  shows "scan (concat (map (\<lambda>e. 0x2C # astToString e) es) @ R)
     = concat (map (\<lambda>e. mkToken Comma (js '','') # toks e) es) @ scan R"
  using assms(1)
proof (induction es)
  case Nil
  then show ?case by simp
next
  case (Cons e es)
  let ?rest = "concat (map (\<lambda>e. 0x2C # astToString e) es) @ R"
  have sep: "separated ?rest"
    using assms(2) by (cases es) (simp_all add: separated_punctuation)
  have comma: "scan (0x2C # astToString e @ ?rest)
      = mkToken Comma [0x2C] # scan (astToString e @ ?rest)"
    by (rule scan_single) (simp_all add: operatorMap_def)
  have "scan (astToString e @ ?rest) = toks e @ scan ?rest"
    using Cons.prems [of e ?rest] sep by simp
  moreover have "scan ?rest = concat (map (\<lambda>e. mkToken Comma (js '','') # toks e) es) @ scan R"
    using Cons.IH Cons.prems by simp
  ultimately show ?case
    using comma by (simp add: js_def)
qed

lemma scan_astToString:
  "wellFormed a \<Longrightarrow> separated R \<Longrightarrow> scan (astToString a @ R) = toks a @ scan R"
proof (induction a arbitrary: R)
  case Null
  then show ?case by simp
next
  case (NumberLiteral v)
  then show ?case by (simp add: scan_number)
next
  case (Identifier v)
  then show ?case
    using astToString_identifier [OF Identifier.prems(1)] by (simp add: scan_identifier)
next
  case (BinaryExpression operator l r)
  note wf = BinaryExpression.prems(1)
  have op: "operator \<in> set operatorTexts" and l: "wellFormed l" and r: "wellFormed r"
    using wf operator_binary [of operator] by simp_all
  have "scan (astToString l @ operator @ astToString r @ R)
      = toks l @ scan (operator @ astToString r @ R)"
    using BinaryExpression.IH(1) [OF l separated_operator [OF op]] .
  also have "scan (operator @ astToString r @ R)
      = operatorTokenOf operator # scan (astToString r @ R)"
    using scan_operator [OF op astToString_noEquals [OF r]] .
  also have "scan (astToString r @ R) = toks r @ scan R"
    using BinaryExpression.IH(2) [OF r BinaryExpression.prems(2)] .
  finally show ?case
    unfolding astToString_binary [OF wf] by simp
next
  case (UnaryExpression operator operand)
  note wf = UnaryExpression.prems(1)
  have op: "operator \<in> set operatorTexts" and e: "wellFormed operand"
    using wf operator_unary [of operator] by simp_all
  have "scan (operator @ astToString operand @ R)
      = operatorTokenOf operator # scan (astToString operand @ R)"
    using scan_operator [OF op astToString_noEquals [OF e]] .
  also have "scan (astToString operand @ R) = toks operand @ scan R"
    using UnaryExpression.IH [OF e UnaryExpression.prems(2)] .
  finally show ?case
    unfolding astToString_unary [OF wf] by simp
next
  case (FunctionCall name arguments)
  then show ?case by simp
next
  case (ArrayExpression elements)
  have wf: "\<And>e. e \<in> set elements \<Longrightarrow> wellFormed e"
    using ArrayExpression.prems(1) by (simp add: list_all_iff)
  have open': "scan (0x5B # X) = mkToken LBracket [0x5B] # scan X" for X
    by (rule scan_single) (simp_all add: operatorMap_def)
  have close': "scan (0x5D # R) = mkToken RBracket [0x5D] # scan R"
    by (rule scan_single) (simp_all add: operatorMap_def)
  show ?case
  proof (cases elements)
    case Nil
    then show ?thesis
      using open' [of "0x5D # R"] close' by (simp add: js_def)
  next
    case (Cons e es)
    have ih: "scan (astToString x @ X) = toks x @ scan X"
      if "x \<in> set elements" "separated X" for x X
      using ArrayExpression.IH [OF that(1) wf [OF that(1)] that(2)] .
    have "scan (concat (map (\<lambda>e. 0x2C # astToString e) es) @ 0x5D # R)
        = concat (map (\<lambda>e. mkToken Comma (js '','') # toks e) es) @ scan (0x5D # R)"
      by (rule scan_elements) (simp_all add: ih Cons separated_punctuation)
    moreover have "scan (astToString e @ concat (map (\<lambda>e. 0x2C # astToString e) es) @ 0x5D # R)
        = toks e @ scan (concat (map (\<lambda>e. 0x2C # astToString e) es) @ 0x5D # R)"
      by (rule ih) (cases es; simp add: Cons separated_punctuation)+
    moreover have "join [0x2C] (map astToString (e # es))
        = astToString e @ concat (map (\<lambda>e. 0x2C # astToString e) es)"
      using join_comma [of "0x2C" "map astToString (e # es)"] by (simp add: comp_def)
    ultimately show ?thesis
      using open' [of "astToString e @ concat (map (\<lambda>e. 0x2C # astToString e) es) @ 0x5D # R"]
        close'
      by (simp add: Cons js_def)
  qed
next
  case (MatrixExpression rows)
  then show ?case by simp
next
  case (ComparisonExpression operator l r)
  note wf = ComparisonExpression.prems(1)
  have op: "operator \<in> set operatorTexts" and l: "wellFormed l" and r: "wellFormed r"
    using wf operator_comparison [of operator] by simp_all
  have "scan (astToString l @ operator @ astToString r @ R)
      = toks l @ scan (operator @ astToString r @ R)"
    using ComparisonExpression.IH(1) [OF l separated_operator [OF op]] .
  also have "scan (operator @ astToString r @ R)
      = operatorTokenOf operator # scan (astToString r @ R)"
    using scan_operator [OF op astToString_noEquals [OF r]] .
  also have "scan (astToString r @ R) = toks r @ scan R"
    using ComparisonExpression.IH(2) [OF r ComparisonExpression.prems(2)] .
  finally show ?case
    by simp
next
  case (AssignmentExpression operator l r)
  note wf = AssignmentExpression.prems(1)
  have op: "operator = js ''=''" "js ''='' \<in> set operatorTexts"
    and l: "wellFormed l" and r: "wellFormed r"
    using wf by (simp_all add: operatorTexts_def)
  have "scan (astToString l @ js ''='' @ astToString r @ R)
      = toks l @ scan (js ''='' @ astToString r @ R)"
    using AssignmentExpression.IH(1) [OF l separated_operator [OF op(2)]] .
  also have "scan (js ''='' @ astToString r @ R)
      = operatorTokenOf (js ''='') # scan (astToString r @ R)"
    using scan_operator [OF op(2) astToString_noEquals [OF r]] .
  also have "scan (astToString r @ R) = toks r @ scan R"
    using AssignmentExpression.IH(2) [OF r AssignmentExpression.prems(2)] .
  finally show ?case
    by (simp add: op(1))
next
  case (ParenthesizedExpression expression)
  have e: "wellFormed expression"
    using ParenthesizedExpression.prems(1) by simp
  have open': "scan (0x28 # X) = mkToken LParen [0x28] # scan X" for X
    by (rule scan_single) (simp_all add: operatorMap_def)
  have close': "scan (0x29 # R) = mkToken RParen [0x29] # scan R"
    by (rule scan_single) (simp_all add: operatorMap_def)
  have "scan (astToString expression @ 0x29 # R) = toks expression @ scan (0x29 # R)"
    using ParenthesizedExpression.IH [OF e separated_punctuation(1)] .
  then show ?case
    using open' [of "astToString expression @ 0x29 # R"] close' by (simp add: js_def)
qed

section \<open>The texts of the tokens the lexer makes\<close>

lemma takeNumber_idem: "takeNumber h (takeNumber h xs) = takeNumber h xs"
  by (induction xs arbitrary: h) simp_all

lemma numberText_takeNumber:
  assumes "isDigit c \<or> (c = 0x2E \<and> (case cs of [] \<Rightarrow> False | d # ds \<Rightarrow> isDigit d))"
  shows "numberText (takeNumber False (c # cs))"
proof -
  have "takeNumber False (c # cs) = c # takeNumber (c = 0x2E) cs"
    using assms by auto
  moreover have "case takeNumber (c = 0x2E) cs of [] \<Rightarrow> False | d # ds \<Rightarrow> isDigit d"
    if "\<not> isDigit c"
    using assms that by (cases cs) auto
  ultimately show ?thesis
    using assms takeNumber_idem [of False "c # cs"] by (auto simp: numberText_def)
qed

lemma identifierText_takeWhile:
  assumes "isIdentStart c"
  shows "identifierText (takeWhile isIdentPart (c # cs))"
  using assms isIdentStart_facts(4) [OF assms]
  by (auto simp: identifierText_def list_all_iff dest: set_takeWhileD)

lemma lexical_operatorToken: "lexical (fst (operatorToken c cs))"
  by (auto simp: operatorToken_def operatorMap_def lexical_def mkToken_def js_def
      split: if_splits)

lemma scan_lexical: "t \<in> set (scan s) \<Longrightarrow> lexical t"
proof (induction s rule: scan.induct)
  case 1
  then show ?case by simp
next
  case (2 c cs)
  show ?case
  proof (cases c cs rule: scan_Cons_cases)
    case ws
    have "t \<in> set (scan (dropWhile isWhitespace cs))"
      using "2.prems" unfolding ws(2) .
    then show ?thesis by (rule "2.IH"(1) [OF ws(1)])
  next
    case num
    have "t = mkToken Number (takeNumber False (c # cs)) \<or> t \<in> set (scan (dropNumber False (c # cs)))"
      using "2.prems" unfolding num(3) by simp
    then show ?thesis
      using "2.IH"(2) [OF num(1,2)] numberText_takeNumber [OF num(2)]
      by (auto simp: mkToken_def lexical_def)
  next
    case ident
    have "t = mkToken IdentifierT (takeWhile isIdentPart (c # cs))
        \<or> t \<in> set (scan (dropWhile isIdentPart (c # cs)))"
      using "2.prems" unfolding ident(4) by simp
    then show ?thesis
      using "2.IH"(3) [OF ident(1,2,3)] identifierText_takeWhile [OF ident(3), of cs]
      by (auto simp: mkToken_def lexical_def)
  next
    case cmd
    have "t = mkToken Command (0x5C # takeWhile isLetter cs)
        \<or> t \<in> set (scan (dropWhile isLetter cs))"
      using "2.prems" unfolding cmd(5) by simp
    then show ?thesis
      using "2.IH"(4) [OF cmd(1,2,3,4)] by (auto simp: mkToken_def lexical_def)
  next
    case op
    have "t = fst (operatorToken c cs) \<or> t \<in> set (scan (snd (operatorToken c cs)))"
      using "2.prems" unfolding op(5) by simp
    then show ?thesis
      using "2.IH"(5) [OF op(1,2,3,4)] lexical_operatorToken [of c cs] by blast
  qed
qed

section \<open>The tokens a production reads\<close>

subsection \<open>Steps of the state\<close>

lemma kept_refl [simp]: "kept P P"
  by (simp add: kept_def)

lemma kept_trans: "kept P Q \<Longrightarrow> kept Q R \<Longrightarrow> kept P R"
  by (simp add: kept_def)

lemma kept_addError [simp]: "kept P (addError P m)"
  by (simp add: kept_def addError_def Let_def)

lemma kept_consume [simp]: "kept P (snd (consume P e))"
  by (auto simp: kept_def consume_def addError_def Let_def split: option.splits)

lemma kept_position [simp]: "kept P (P\<lparr>position := n\<rparr>)"
  by (simp add: kept_def)

lemma clean_split:
  assumes "kept P P1" "kept P1 Q" "clean P Q"
  shows "clean P P1" "clean P1 Q"
  using assms by (auto simp: kept_def clean_def)

lemma not_clean_addError:
  "kept (addError P m) Q \<Longrightarrow> \<not> clean P Q"
  by (auto simp: kept_def clean_def addError_def Let_def)

lemma token_eq: "mkToken (tok_type t) (tok_value t) = t"
  by (simp add: mkToken_def)

lemma peek_ahead:
  assumes "peek P 0 = Some t"
  shows "ahead P = t # ahead (P\<lparr>position := position P + 1\<rparr>)" "t \<in> set (tokens P)"
proof -
  have lt: "position P < length (tokens P)" and t: "tokens P ! position P = t"
    using assms by (simp_all add: peek_def Let_def split: if_splits)
  show "ahead P = t # ahead (P\<lparr>position := position P + 1\<rparr>)"
    using Cons_nth_drop_Suc [OF lt] t by (simp add: ahead_def)
  show "t \<in> set (tokens P)"
    using lt t nth_mem by blast
qed

lemma consume_None_errors:
  "consume P e = (None, Q) \<Longrightarrow> length (errors Q) = Suc (length (errors P))"
  by (auto simp: consume_def addError_def Let_def split: option.splits if_splits)

lemma consume_clean:
  assumes "clean P (snd (consume P e))"
  obtains t where "ahead P = t # ahead (snd (consume P e))" "lexical t"
    "\<And>x. e = Some x \<Longrightarrow> tok_type t = x"
proof -
  obtain r Q where c: "consume P e = (r, Q)"
    by (cases "consume P e")
  have "r \<noteq> None"
    using assms c consume_None_errors [of P e Q] by (auto simp: clean_def)
  then obtain t where "consume P e = (Some t, Q)"
    using c by auto
  note d = consume_SomeD [OF this]
  have "lexical t"
    using peek_ahead(2) [of P t] d assms by (simp add: clean_def list_all_iff)
  then show thesis
    using that [of t] peek_ahead(1) [of P t] d c by simp
qed

lemma lexical_fixed:
  assumes "lexical t"
  shows "tok_type t = LParen \<Longrightarrow> t = mkToken LParen (js ''('')"
    and "tok_type t = RParen \<Longrightarrow> t = mkToken RParen (js '')'')"
    and "tok_type t = LBracket \<Longrightarrow> t = mkToken LBracket (js ''['')"
    and "tok_type t = RBracket \<Longrightarrow> t = mkToken RBracket (js '']'')"
    and "tok_type t = Comma \<Longrightarrow> t = mkToken Comma (js '','')"
  using assms by (cases t; simp add: lexical_def mkToken_def)+

lemma lexical_operator:
  assumes "lexical t"
    and "tok_type t \<in> {Power, Multiply, Divide, Plus, Minus, LessThan, GreaterThan, LessEqual,
      GreaterEqual, Equals, NotEqual}"
  shows "operatorTokenOf (tok_value t) = t" "tok_value t = textOf (tok_type t)"
proof -
  show v: "tok_value t = textOf (tok_type t)"
    using assms by (auto simp: lexical_def)
  have "operatorTokenOf (textOf (tok_type t)) = mkToken (tok_type t) (textOf (tok_type t))"
    using assms(2)
    by (auto simp: operatorTokenOf_def operatorToken_def operatorMap_def js_def)
  then show "operatorTokenOf (tok_value t) = t"
    using token_eq [of t] by (simp add: v)
qed

subsection \<open>Where \<^verbatim>\<open>astToString\<close> puts no parentheses\<close>

lemma binary_texts:
  assumes "ty \<in> {Power, Multiply, Divide, Plus, Minus}"
  shows "textOf ty \<in> set [js ''^'', js ''*'', js ''/'', js ''+'', js ''-'']"
    and "level (BinaryExpression (textOf ty) l r) = binaryLevel ty"
  using assms by (auto simp: js_def)

lemma comparison_texts:
  assumes "ty \<in> {LessThan, GreaterThan, LessEqual, GreaterEqual, Equals, NotEqual}"
  shows "textOf ty \<in> set [js ''<'', js ''>'', js ''<='', js ''>='', js ''='', js ''!='']"
  using assms by auto

lemma no_parentheses_left:
  assumes "operator \<in> set [js ''^'', js ''*'', js ''/'', js ''+'', js ''-'']"
    and "level (BinaryExpression operator l r) \<le> level l"
  shows "\<not> needsParentheses l (BinaryExpression operator l r) LeftSide"
proof (cases l)
  case (BinaryExpression childOperator l' r')
  then show ?thesis
    using assms
    by (auto simp: needsParentheses_def getOperatorPrecedence_def Let_def js_def
        split: if_splits)
qed (simp_all add: needsParentheses_def)

lemma no_parentheses_right:
  assumes "operator \<in> set [js ''^'', js ''*'', js ''/'', js ''+'', js ''-'']"
    and "level (BinaryExpression operator l r) < level r"
  shows "\<not> needsParentheses r (BinaryExpression operator l r) RightSide"
proof (cases r)
  case (BinaryExpression childOperator l' r')
  then show ?thesis
    using assms
    by (auto simp: needsParentheses_def getOperatorPrecedence_def Let_def js_def
        split: if_splits)
qed (simp_all add: needsParentheses_def)

lemma no_parentheses_unary: "6 \<le> level a \<Longrightarrow> \<not> needsParenthesesForUnary a"
  by (cases a) (simp_all split: if_splits)

subsection \<open>Steps of the productions\<close>

lemma foreign_faithful: "foreign P a Q \<Longrightarrow> faithful k P a Q"
  by (auto simp: foreign_def faithful_def)

lemma faithful_weaken: "faithful k P a Q \<Longrightarrow> j \<le> k \<Longrightarrow> faithful j P a Q"
  by (auto simp: faithful_def)

lemma faithful_kept: "faithful k P a Q \<Longrightarrow> kept P Q"
  by (simp add: faithful_def)

lemma continued_kept: "continued k node P a Q \<Longrightarrow> kept P Q"
  by (simp add: continued_def)

lemma listed_kept: "listed args P all Q \<Longrightarrow> kept P Q"
  by (simp add: listed_def)

lemma continued_refl: "continued k node P node P"
  by (simp add: continued_def)

lemma listed_refl: "listed args P args P"
  by (simp add: listed_def commaToks_def)

lemma faithful_continued:
  assumes first: "faithful j P node P1" and "k \<le> j" and rest: "continued k node P1 a Q"
  shows "faithful k P a Q"
proof -
  have k1: "kept P P1" and k2: "kept P1 Q"
    using first rest by (simp_all add: faithful_def continued_def)
  have "wellFormed a \<and> k \<le> level a \<and> ahead P = toks a @ ahead Q"
    if c: "clean P Q" and own: "ownSyntax a"
  proof -
    note cs = clean_split [OF k1 k2 c]
    have n: "ownSyntax node" and eq: "toks node @ ahead P1 = toks a @ ahead Q"
      and imp: "wellFormed node \<and> k \<le> level node \<longrightarrow> wellFormed a \<and> k \<le> level a"
      using rest cs(2) own by (simp_all add: continued_def)
    have "wellFormed node" "j \<le> level node" "ahead P = toks node @ ahead P1"
      using first cs(1) n by (simp_all add: faithful_def)
    then show ?thesis
      using imp eq assms(2) by simp
  qed
  then show ?thesis
    using kept_trans [OF k1 k2] by (simp add: faithful_def)
qed

lemma binary_step:
  assumes t: "peek P 0 = Some t"
    and ty: "tok_type t \<in> {Power, Multiply, Divide, Plus, Minus}"
    and k: "k = binaryLevel (tok_type t)"
    and right: "faithful (Suc k) (P\<lparr>position := position P + 1\<rparr>) right P2"
    and rest: "continued k (BinaryExpression (tok_value t) node right) P2 a Q"
  shows "continued k node P a Q"
proof -
  let ?P1 = "P\<lparr>position := position P + 1\<rparr>"
  let ?b = "BinaryExpression (tok_value t) node right"
  have k1: "kept P ?P1" and k2: "kept ?P1 P2" and k3: "kept P2 Q"
    using right rest by (simp_all add: faithful_def continued_def)
  have k13: "kept ?P1 Q"
    using kept_trans [OF k2 k3] .
  have "ownSyntax node \<and> toks node @ ahead P = toks a @ ahead Q
      \<and> (wellFormed node \<and> k \<le> level node \<longrightarrow> wellFormed a \<and> k \<le> level a)"
    if c: "clean P Q" and own: "ownSyntax a"
  proof -
    note c1 = clean_split [OF k1 k13 c]
    note c2 = clean_split [OF k2 k3 c1(2)]
    have lex: "lexical t"
      using c peek_ahead(2) [OF t] by (simp add: clean_def list_all_iff)
    have opt: "operatorTokenOf (tok_value t) = t" and v: "tok_value t = textOf (tok_type t)"
      using lexical_operator [OF lex] ty by auto
    have b: "ownSyntax ?b" and eq: "toks ?b @ ahead P2 = toks a @ ahead Q"
      and imp: "wellFormed ?b \<and> k \<le> level ?b \<longrightarrow> wellFormed a \<and> k \<le> level a"
      using rest c2(2) own by (simp_all add: continued_def)
    have r: "wellFormed right" "Suc k \<le> level right" "ahead ?P1 = toks right @ ahead P2"
      using right c2(1) b by (simp_all add: faithful_def)
    have "toks node @ ahead P = toks ?b @ ahead P2"
      using peek_ahead(1) [OF t] r(3) opt by simp
    moreover have "wellFormed a \<and> k \<le> level a" if n: "wellFormed node" "k \<le> level node"
    proof -
      have opText: "tok_value t \<in> set [js ''^'', js ''*'', js ''/'', js ''+'', js ''-'']"
        and lv: "level ?b = k"
        unfolding v k using binary_texts [OF ty] by simp_all
      have "\<not> needsParentheses node ?b LeftSide"
        by (rule no_parentheses_left [OF opText]) (simp only: lv n(2))
      moreover have "\<not> needsParentheses right ?b RightSide"
        by (rule no_parentheses_right [OF opText]) (use lv r(2) in simp)
      ultimately have "wellFormed ?b"
        using opText n(1) r(1) by simp
      then show ?thesis
        using imp lv by simp
    qed
    ultimately show ?thesis
      using b eq by simp
  qed
  then show ?thesis
    using kept_trans [OF k1 k13] by (simp add: continued_def)
qed

lemma comparison_step:
  assumes t: "peek P 0 = Some t"
    and ty: "tok_type t \<in> {LessThan, GreaterThan, LessEqual, GreaterEqual, Equals, NotEqual}"
    and right: "faithful 3 (P\<lparr>position := position P + 1\<rparr>) right P2"
    and rest: "continued 2 (ComparisonExpression (tok_value t) node right) P2 a Q"
  shows "continued 2 node P a Q"
proof -
  let ?P1 = "P\<lparr>position := position P + 1\<rparr>"
  let ?b = "ComparisonExpression (tok_value t) node right"
  have k1: "kept P ?P1" and k2: "kept ?P1 P2" and k3: "kept P2 Q"
    using right rest by (simp_all add: faithful_def continued_def)
  have k13: "kept ?P1 Q"
    using kept_trans [OF k2 k3] .
  have "ownSyntax node \<and> toks node @ ahead P = toks a @ ahead Q
      \<and> (wellFormed node \<and> 2 \<le> level node \<longrightarrow> wellFormed a \<and> 2 \<le> level a)"
    if c: "clean P Q" and own: "ownSyntax a"
  proof -
    note c1 = clean_split [OF k1 k13 c]
    note c2 = clean_split [OF k2 k3 c1(2)]
    have lex: "lexical t"
      using c peek_ahead(2) [OF t] by (simp add: clean_def list_all_iff)
    have opt: "operatorTokenOf (tok_value t) = t" and v: "tok_value t = textOf (tok_type t)"
      using lexical_operator [OF lex] ty by auto
    have b: "ownSyntax ?b" and eq: "toks ?b @ ahead P2 = toks a @ ahead Q"
      and imp: "wellFormed ?b \<and> 2 \<le> level ?b \<longrightarrow> wellFormed a \<and> 2 \<le> level a"
      using rest c2(2) own by (simp_all add: continued_def)
    have r: "wellFormed right" "ahead ?P1 = toks right @ ahead P2"
      using right c2(1) b by (simp_all add: faithful_def)
    have "toks node @ ahead P = toks ?b @ ahead P2"
      using peek_ahead(1) [OF t] r(2) opt by simp
    moreover have "wellFormed a \<and> 2 \<le> level a" if n: "wellFormed node"
    proof -
      have opText: "tok_value t \<in> set [js ''<'', js ''>'', js ''<='', js ''>='', js ''='', js ''!='']"
        unfolding v using comparison_texts [OF ty] .
      have "wellFormed ?b"
        using opText n r(1) by simp
      then show ?thesis
        using imp by simp
    qed
    ultimately show ?thesis
      using b eq by simp
  qed
  then show ?thesis
    using kept_trans [OF k1 k13] by (simp add: continued_def)
qed

lemma number_step:
  assumes t: "peek P 0 = Some t" and ty: "tok_type t = Number"
  shows "faithful 6 P (NumberLiteral (tok_value t)) (snd (consume P None))"
proof -
  have Q: "snd (consume P None) = P\<lparr>position := position P + 1\<rparr>"
    using consume_None_Some [OF t] by simp
  have "numberText (tok_value t)" if "clean P (P\<lparr>position := position P + 1\<rparr>)"
    using that peek_ahead(2) [OF t] ty by (auto simp: clean_def list_all_iff lexical_def)
  moreover have "mkToken Number (tok_value t) = t"
    using token_eq [of t] ty by simp
  ultimately show ?thesis
    using peek_ahead(1) [OF t] by (simp add: faithful_def Q)
qed

lemma identifier_step:
  assumes t: "peek P 0 = Some t" and ty: "tok_type t = IdentifierT"
  shows "faithful 6 P (Identifier (tok_value t)) (snd (consume P None))"
proof -
  have Q: "snd (consume P None) = P\<lparr>position := position P + 1\<rparr>"
    using consume_None_Some [OF t] by simp
  have "identifierText (tok_value t)" if "clean P (P\<lparr>position := position P + 1\<rparr>)"
    using that peek_ahead(2) [OF t] ty by (auto simp: clean_def list_all_iff lexical_def)
  moreover have "mkToken IdentifierT (tok_value t) = t"
    using token_eq [of t] ty by simp
  ultimately show ?thesis
    using peek_ahead(1) [OF t] by (simp add: faithful_def Q)
qed

lemma unary_step:
  assumes t: "peek P 0 = Some t" and ty: "tok_type t = Plus \<or> tok_type t = Minus"
    and operand: "faithful 6 (P\<lparr>position := position P + 1\<rparr>) operand P2"
  shows "faithful 6 P (UnaryExpression (tok_value t) operand) P2"
proof -
  let ?P1 = "P\<lparr>position := position P + 1\<rparr>"
  have k1: "kept P ?P1" and k2: "kept ?P1 P2"
    using operand by (simp_all add: faithful_def)
  have "wellFormed (UnaryExpression (tok_value t) operand)
      \<and> ahead P = toks (UnaryExpression (tok_value t) operand) @ ahead P2"
    if c: "clean P P2" and own: "ownSyntax operand"
  proof -
    note c1 = clean_split [OF k1 k2 c]
    have lex: "lexical t"
      using c peek_ahead(2) [OF t] by (simp add: clean_def list_all_iff)
    have opt: "operatorTokenOf (tok_value t) = t" and v: "tok_value t = textOf (tok_type t)"
      using lexical_operator [OF lex] ty by auto
    have e: "wellFormed operand" "6 \<le> level operand" "ahead ?P1 = toks operand @ ahead P2"
      using operand c1(2) own by (simp_all add: faithful_def)
    have "tok_value t \<in> set [js ''+'', js ''-'']"
      unfolding v using ty by auto
    then show ?thesis
      using e no_parentheses_unary [OF e(2)] peek_ahead(1) [OF t] opt by simp
  qed
  then show ?thesis
    using kept_trans [OF k1 k2] by (simp add: faithful_def)
qed

lemma paren_step:
  assumes inner: "faithful 0 (snd (consume P (Some LParen))) e P1"
  shows "faithful 6 P (ParenthesizedExpression e) (snd (consume P1 (Some RParen)))"
proof -
  let ?P0 = "snd (consume P (Some LParen))"
  let ?Q = "snd (consume P1 (Some RParen))"
  have k1: "kept P ?P0" and k2: "kept ?P0 P1" and k3: "kept P1 ?Q"
    using inner by (simp_all add: faithful_def)
  have k13: "kept ?P0 ?Q"
    using kept_trans [OF k2 k3] .
  have "wellFormed e \<and> ahead P = toks (ParenthesizedExpression e) @ ahead ?Q"
    if c: "clean P ?Q" and own: "ownSyntax e"
  proof -
    note c1 = clean_split [OF k1 k13 c]
    note c2 = clean_split [OF k2 k3 c1(2)]
    obtain t0 where t0: "ahead P = t0 # ahead ?P0" "lexical t0" "tok_type t0 = LParen"
      using consume_clean [OF c1(1)] by blast
    obtain t1 where t1: "ahead P1 = t1 # ahead ?Q" "lexical t1" "tok_type t1 = RParen"
      using consume_clean [OF c2(2)] by blast
    have e: "wellFormed e" "ahead ?P0 = toks e @ ahead P1"
      using inner c2(1) own by (simp_all add: faithful_def)
    show ?thesis
      using e t0(1) t1(1) lexical_fixed(1) [OF t0(2,3)] lexical_fixed(2) [OF t1(2,3)]
      by simp
  qed
  then show ?thesis
    using kept_trans [OF k1 k13] by (simp add: faithful_def)
qed

lemma array_empty_step:
  "faithful 6 P (ArrayExpression [])
     (snd (consume (snd (consume P (Some LBracket))) (Some RBracket)))"
proof -
  let ?P0 = "snd (consume P (Some LBracket))"
  let ?Q = "snd (consume ?P0 (Some RBracket))"
  have k1: "kept P ?P0" and k2: "kept ?P0 ?Q"
    by simp_all
  have "ahead P = toks (ArrayExpression []) @ ahead ?Q" if c: "clean P ?Q"
  proof -
    note c1 = clean_split [OF k1 k2 c]
    obtain t0 where t0: "ahead P = t0 # ahead ?P0" "lexical t0" "tok_type t0 = LBracket"
      using consume_clean [OF c1(1)] by blast
    obtain t1 where t1: "ahead ?P0 = t1 # ahead ?Q" "lexical t1" "tok_type t1 = RBracket"
      using consume_clean [OF c1(2)] by blast
    show ?thesis
      using t0(1) t1(1) lexical_fixed(3) [OF t0(2,3)] lexical_fixed(4) [OF t1(2,3)]
      by simp
  qed
  then show ?thesis
    using kept_trans [OF k1 k2] by (simp add: faithful_def)
qed

lemma array_step:
  assumes first: "faithful 0 (snd (consume P (Some LBracket))) a P2"
    and rest: "listed [a] P2 elements P3"
  shows "faithful 6 P (ArrayExpression elements) (snd (consume P3 (Some RBracket)))"
proof -
  let ?P0 = "snd (consume P (Some LBracket))"
  let ?Q = "snd (consume P3 (Some RBracket))"
  have k1: "kept P ?P0" and k2: "kept ?P0 P2" and k3: "kept P2 P3" and k4: "kept P3 ?Q"
    using first rest by (simp_all add: faithful_def listed_def)
  have k34: "kept P2 ?Q"
    using kept_trans [OF k3 k4] .
  have k24: "kept ?P0 ?Q"
    using kept_trans [OF k2 k34] .
  obtain new where new: "elements = a # new"
    and imp: "clean P2 P3 \<longrightarrow> list_all ownSyntax new \<longrightarrow>
       list_all wellFormed new \<and> ahead P2 = commaToks new @ ahead P3"
    using rest by (auto simp: listed_def)
  have "list_all wellFormed elements \<and> ahead P = toks (ArrayExpression elements) @ ahead ?Q"
    if c: "clean P ?Q" and own: "list_all ownSyntax elements"
  proof -
    note c1 = clean_split [OF k1 k24 c]
    note c2 = clean_split [OF k2 k34 c1(2)]
    note c3 = clean_split [OF k3 k4 c2(2)]
    obtain t0 where t0: "ahead P = t0 # ahead ?P0" "lexical t0" "tok_type t0 = LBracket"
      using consume_clean [OF c1(1)] by blast
    obtain t1 where t1: "ahead P3 = t1 # ahead ?Q" "lexical t1" "tok_type t1 = RBracket"
      using consume_clean [OF c3(2)] by blast
    have a: "wellFormed a" "ahead ?P0 = toks a @ ahead P2"
      using first c2(1) own new by (simp_all add: faithful_def)
    have n: "list_all wellFormed new" "ahead P2 = commaToks new @ ahead P3"
      using imp c3(1) own new by simp_all
    show ?thesis
      using a n t0(1) t1(1) lexical_fixed(3) [OF t0(2,3)] lexical_fixed(4) [OF t1(2,3)]
      by (simp add: new commaToks_def)
  qed
  then show ?thesis
    using kept_trans [OF k1 k24] by (simp add: faithful_def)
qed

lemma comma_step:
  assumes first: "faithful 0 (snd (consume P (Some Comma))) a P1"
    and rest: "listed (args @ [a]) P1 all Q"
  shows "listed args P all Q"
proof -
  let ?P0 = "snd (consume P (Some Comma))"
  have k1: "kept P ?P0" and k2: "kept ?P0 P1" and k3: "kept P1 Q"
    using first rest by (simp_all add: faithful_def listed_def)
  have k13: "kept ?P0 Q"
    using kept_trans [OF k2 k3] .
  obtain new where new: "all = args @ a # new"
    and imp: "clean P1 Q \<longrightarrow> list_all ownSyntax new \<longrightarrow>
       list_all wellFormed new \<and> ahead P1 = commaToks new @ ahead Q"
    using rest by (auto simp: listed_def)
  have "list_all wellFormed (a # new) \<and> ahead P = commaToks (a # new) @ ahead Q"
    if c: "clean P Q" and own: "list_all ownSyntax (a # new)"
  proof -
    note c1 = clean_split [OF k1 k13 c]
    note c2 = clean_split [OF k2 k3 c1(2)]
    obtain t0 where t0: "ahead P = t0 # ahead ?P0" "lexical t0" "tok_type t0 = Comma"
      using consume_clean [OF c1(1)] by blast
    have a: "wellFormed a" "ahead ?P0 = toks a @ ahead P1"
      using first c2(1) own by (simp_all add: faithful_def)
    have n: "list_all wellFormed new" "ahead P1 = commaToks new @ ahead Q"
      using imp c2(2) own by simp_all
    show ?thesis
      using a n t0(1) lexical_fixed(5) [OF t0(2,3)] by (simp add: commaToks_def)
  qed
  then show ?thesis
    using kept_trans [OF k1 k13] new unfolding listed_def by blast
qed

subsection \<open>Every production is faithful\<close>

lemma returns_kept:
  "returns m (faithful k P) \<Longrightarrow> returns m (keptOnly P)"
  "returns m (foreign P) \<Longrightarrow> returns m (keptOnly P)"
  "returns m' (listed args P) \<Longrightarrow> returns m' (keptOnly P)"
  by (erule returns_weaken, simp add: keptOnly_def faithful_def foreign_def listed_def)+

lemma returns_keptOnly_bind:
  assumes "returns m (keptOnly P)"
    and "\<And>a P1. m = Return a P1 \<Longrightarrow> kept P P1 \<Longrightarrow> returns (f a P1) (keptOnly P)"
  shows "returns (case m of Throw Q \<Rightarrow> Throw Q | Return a P1 \<Rightarrow> f a P1) (keptOnly P)"
  using assms by (cases m) (simp_all add: keptOnly_def)

lemma keptOnly_via:
  "kept P P1 \<Longrightarrow> returns m (keptOnly P1) \<Longrightarrow> returns m (keptOnly P)"
  by (cases m) (auto simp: keptOnly_def intro: kept_trans)

lemma keptOnly_Return: "kept P Q \<Longrightarrow> returns (Return a Q) (keptOnly P)"
  by (simp add: keptOnly_def)

lemma kept_consume_after: "kept P P1 \<Longrightarrow> kept P (snd (consume P1 e))"
  using kept_trans [OF _ kept_consume] .

lemma foreign_keptOnly:
  "returns m (keptOnly P) \<Longrightarrow> (\<And>a Q. m = Return a Q \<Longrightarrow> \<not> ownSyntax a) \<Longrightarrow>
     returns m (foreign P)"
  by (cases m) (simp_all add: keptOnly_def foreign_def)

lemma errors_consume: "length (errors (snd (consume P e))) = length (errors P) + failed P e"
  using kept_consume [of P e] by (simp add: failed_def kept_def)

lemma errors_addError: "length (errors (addError P m)) = Suc (length (errors P))"
  by (simp add: addError_def Let_def)

lemmas kept_simps = keptOnly_def kept_def errors_consume errors_addError

lemma foreign_via:
  assumes "kept P P0" "returns m (foreign P0)"
  shows "returns m (faithful k P)"
proof (cases m)
  case (Return a Q)
  then have f: "kept P0 Q" "clean P0 Q \<longrightarrow> \<not> ownSyntax a"
    using assms(2) by (simp_all add: foreign_def)
  show ?thesis
    using f clean_split(2) [OF assms(1) f(1)] kept_trans [OF assms(1) f(1)]
    by (auto simp: Return faithful_def)
qed simp

lemma error_faithful: "kept (addError P m) Q \<Longrightarrow> faithful k P a Q"
  using not_clean_addError [of P m Q] kept_trans [OF kept_addError, of P m Q]
  by (simp add: faithful_def)

lemma binary_loop:
  assumes t: "peek P 0 = Some t"
    and ty: "tok_type t \<in> {Power, Multiply, Divide, Plus, Minus}"
    and k: "k = binaryLevel (tok_type t)"
    and operand: "returns m (faithful (Suc k) (P\<lparr>position := position P + 1\<rparr>))"
    and rest: "\<And>right P2. m = Return right P2 \<Longrightarrow>
       returns (loop right P2) (continued k (BinaryExpression (tok_value t) node right) P2)"
  shows "returns (case m of Throw Q \<Rightarrow> Throw Q | Return right P2 \<Rightarrow> loop right P2)
     (continued k node P)"
proof (cases m)
  case (Return right P2)
  show ?thesis
  proof (cases "loop right P2")
    case (Return a Q)
    show ?thesis
      using binary_step [OF t ty k, of right P2 node a Q] operand rest [OF \<open>m = Return right P2\<close>]
      by (simp add: Return \<open>m = Return right P2\<close>)
  qed (simp add: Return)
qed simp

lemma comparison_loop:
  assumes t: "peek P 0 = Some t"
    and ty: "tok_type t \<in> {LessThan, GreaterThan, LessEqual, GreaterEqual, Equals, NotEqual}"
    and operand: "returns m (faithful 3 (P\<lparr>position := position P + 1\<rparr>))"
    and rest: "\<And>right P2. m = Return right P2 \<Longrightarrow>
       returns (loop right P2) (continued 2 (ComparisonExpression (tok_value t) node right) P2)"
  shows "returns (case m of Throw Q \<Rightarrow> Throw Q | Return right P2 \<Rightarrow> loop right P2)
     (continued 2 node P)"
proof (cases m)
  case (Return right P2)
  show ?thesis
  proof (cases "loop right P2")
    case (Return a Q)
    show ?thesis
      using comparison_step [OF t ty, of right P2 node a Q] operand
        rest [OF \<open>m = Return right P2\<close>]
      by (simp add: Return \<open>m = Return right P2\<close>)
  qed (simp add: Return)
qed simp

lemma level_loop:
  assumes "returns m (faithful j P)" "k \<le> j"
    and "\<And>node P1. m = Return node P1 \<Longrightarrow> returns (loop node P1) (continued k node P1)"
  shows "returns (case m of Throw Q \<Rightarrow> Throw Q | Return node P1 \<Rightarrow> loop node P1) (faithful k P)"
proof (cases m)
  case (Return node P1)
  show ?thesis
  proof (cases "loop node P1")
    case (Return a Q)
    show ?thesis
      using faithful_continued [of j P node P1 k a Q] assms(1,2) assms(3) [OF \<open>m = Return node P1\<close>]
      by (simp add: Return \<open>m = Return node P1\<close>)
  qed (simp add: Return)
qed simp

lemma parseFunctionCall_result:
  "parseFunctionCall funcName P = Return a Q \<Longrightarrow> \<not> ownSyntax a"
  by (subst (asm) parseFunctionCall.simps) (auto simp: Let_def split: if_splits result.splits)

lemma parseMatrixExpression_result:
  "parseMatrixExpression P = Return a Q \<Longrightarrow> \<not> ownSyntax a"
  by (subst (asm) parseMatrixExpression.simps)
    (auto simp: Let_def split: if_splits result.splits prod.splits)

lemma productions_faithful:
  "returns (parsePrimary P) (faithful 6 P)"
  "returns (parseFunctionCall funcName P) (foreign P)"
  "returns (parseBraceArgs args P) (keptOnly P)"
  "returns (parseCommaArgs args P) (listed args P)"
  "returns (parseArrayExpression P) (faithful 6 P)"
  "returns (parseFracCommand P) (foreign P)"
  "returns (parseMatrixExpression P) (foreign P)"
  "returns (parseMatrix_loop rows currentRow P) (keptOnly P)"
  "returns (parseExponent P) (faithful 5 P)"
  "returns (parseExponent_loop node P) (continued 5 node P)"
  "returns (parseTerm P) (faithful 4 P)"
  "returns (parseTerm_loop node P) (continued 4 node P)"
  "returns (parseAdditive P) (faithful 3 P)"
  "returns (parseAdditive_loop node P) (continued 3 node P)"
  "returns (parseComparison P) (faithful 2 P)"
  "returns (parseComparison_loop node P) (continued 2 node P)"
  "returns (parseAssignment P) (faithful 0 P)"
  "returns (parseExpression P) (faithful 0 P)"
proof (induct rule: parsePrimary_parseFunctionCall_parseBraceArgs_parseCommaArgs_parseArrayExpression_parseFracCommand_parseMatrixExpression_parseMatrix_loop_parseExponent_parseExponent_loop_parseTerm_parseTerm_loop_parseAdditive_parseAdditive_loop_parseComparison_parseComparison_loop_parseAssignment_parseExpression.induct)
  case (1 P)
  note IH = 1
  show ?case
  proof (cases "peek P 0")
    case None
    then show ?thesis
      by (simp add: parsePrimary.simps [of P] error_faithful [OF kept_refl])
  next
    case (Some token)
    note [simp] = parsePrimary.simps [of P] Some
    consider (number) "tok_type token = Number" | (ident) "tok_type token = IdentifierT"
      | (frac) "tok_type token = Command" "tok_value token = 0x5C # js ''frac''"
      | (call) "tok_type token = Command" "tok_value token \<noteq> 0x5C # js ''frac''"
      | (paren) "tok_type token = LParen" | (array) "tok_type token = LBracket"
      | (matrix) "tok_type token = LBrace"
      | (sign) "tok_type token = Plus \<or> tok_type token = Minus"
      | (other) "tok_type token \<notin> {Number, IdentifierT, Command, LParen, LBracket, LBrace, Plus, Minus}"
      by auto
    then show ?thesis
    proof cases
      case number
      then show ?thesis using number_step [OF Some] by simp
    next
      case ident
      then show ?thesis using identifier_step [OF Some] by simp
    next
      case frac
      have "returns (parseFracCommand (snd (consume P None))) (foreign (snd (consume P None)))"
        using frac IH(1) [OF Some] by simp
      then show ?thesis
        using frac foreign_via [OF kept_consume] by simp
    next
      case call
      have "returns (parseFunctionCall (tok_value token) (snd (consume P None)))
          (foreign (snd (consume P None)))"
        using call IH(2) [OF Some] by simp
      then show ?thesis
        using call foreign_via [OF kept_consume] by simp
    next
      case paren
      have ih: "returns (parseExpression (snd (consume P (Some LParen))))
          (faithful 0 (snd (consume P (Some LParen))))"
        using paren IH(3) [OF Some] by simp
      show ?thesis
      proof (cases "parseExpression (snd (consume P (Some LParen)))")
        case (Return expr P1)
        then show ?thesis
          using paren ih paren_step [of P expr P1] by simp
      next
        case (Throw Q)
        then show ?thesis using paren by simp
      qed
    next
      case array
      then show ?thesis using IH(4) [OF Some] by simp
    next
      case matrix
      have "returns (parseMatrixExpression P) (foreign P)"
        using matrix IH(5) [OF Some] by simp
      then show ?thesis
        using matrix foreign_via [OF kept_refl] by simp
    next
      case sign
      note cv = consumeValue_peek [OF Some]
      have ih: "returns (parsePrimary (P\<lparr>position := position P + 1\<rparr>))
          (faithful 6 (P\<lparr>position := position P + 1\<rparr>))"
        using sign IH(6) [OF Some _ _ _ _ _ _ _ cv] by auto
      show ?thesis
      proof (cases "parsePrimary (P\<lparr>position := position P + 1\<rparr>)")
        case (Return operand P2)
        then show ?thesis
          using sign ih unary_step [OF Some sign, of operand P2] by (auto simp: cv)
      next
        case (Throw Q)
        then show ?thesis using sign by (auto simp: cv)
      qed
    next
      case other
      then show ?thesis by (auto simp: error_faithful [OF kept_consume])
    qed
  qed
next
  case (2 funcName P)
  note IH = 2
  have "returns (parseFunctionCall funcName P) (keptOnly P)"
  proof -
    note [simp] = parseFunctionCall.simps [of funcName P]
    consider (brace) "peekType P = Some LBrace"
      | (paren) "peekType P = Some LParen" "peekType (snd (consume P (Some LParen))) \<noteq> Some RParen"
      | (empty) "peekType P = Some LParen" "peekType (snd (consume P (Some LParen))) = Some RParen"
      | (bare) "peekType P \<noteq> Some LBrace" "peekType P \<noteq> Some LParen"
      by auto
    then show ?thesis
    proof cases
      case brace
      then show ?thesis
        using IH(1) [THEN returns_kept(1)] IH(2)
        by (auto simp: kept_simps split: result.splits)
    next
      case paren
      then show ?thesis
        using IH(3) [OF _ _ refl, THEN returns_kept(1)] IH(4) [OF _ _ refl, THEN returns_kept(3)]
        by (auto simp: kept_simps Let_def split: result.splits)
    next
      case empty
      then show ?thesis by (auto simp: kept_simps Let_def)
    next
      case bare
      then show ?thesis
        using IH(5) [THEN returns_kept(1)] by (auto simp: kept_simps split: result.splits)
    qed
  qed
  then show ?case
    by (rule foreign_keptOnly) (rule parseFunctionCall_result)
next
  case (3 args P)
  show ?case
    using 3(1) [THEN returns_kept(1)] 3(2)
    by (auto simp: parseBraceArgs.simps [of args P] kept_simps split: result.splits
        elim!: returns_weaken)
next
  case (4 args P)
  show ?case
  proof (cases "peekType P = Some Comma")
    case False
    then show ?thesis
      by (simp add: parseCommaArgs.simps [of args P] listed_refl)
  next
    case True
    show ?thesis
    proof (cases "parseExpression (snd (consume P (Some Comma)))")
      case (Throw Q)
      then show ?thesis
        using True by (simp add: parseCommaArgs.simps [of args P])
    next
      case (Return a P1)
      show ?thesis
      proof (cases "parseCommaArgs (args @ [a]) P1")
        case (Throw Q)
        then show ?thesis
          using True Return by (simp add: parseCommaArgs.simps [of args P])
      next
        case r: (Return all Q)
        have "faithful 0 (snd (consume P (Some Comma))) a P1"
          using 4(1) [OF True] Return by simp
        moreover have "listed (args @ [a]) P1 all Q"
          using 4(2) [OF True Return] r by simp
        ultimately show ?thesis
          using True Return r comma_step [of P a P1 args all Q]
          by (simp add: parseCommaArgs.simps [of args P])
      qed
    qed
  qed
next
  case (5 P)
  note IH = 5
  let ?P1 = "snd (consume P (Some LBracket))"
  show ?case
  proof (cases "peekType ?P1 = Some RBracket")
    case True
    then show ?thesis
      using array_empty_step [of P]
      by (simp add: parseArrayExpression.simps [of P] Let_def)
  next
    case False
    show ?thesis
    proof (cases "parseExpression ?P1")
      case (Throw Q)
      then show ?thesis
        using False by (simp add: parseArrayExpression.simps [of P] Let_def)
    next
      case (Return a P2)
      show ?thesis
      proof (cases "parseCommaArgs [a] P2")
        case (Throw Q)
        then show ?thesis
          using False Return by (simp add: parseArrayExpression.simps [of P] Let_def)
      next
        case r: (Return elements P3)
        have "faithful 0 ?P1 a P2"
          using IH(1) [OF refl False] Return by simp
        moreover have "listed [a] P2 elements P3"
          using IH(2) [OF refl False Return] r by simp
        ultimately show ?thesis
          using False Return r array_step [of P a P2 elements P3]
          by (simp add: parseArrayExpression.simps [of P] Let_def)
      qed
    qed
  qed
next
  case (6 P)
  show ?case
    using 6(1) [THEN returns_kept(1)] 6(2) [OF _ _ refl, THEN returns_kept(1)]
    by (auto simp: parseFracCommand.simps [of P] foreign_def clean_def kept_simps Let_def
        split: result.splits)
next
  case (7 P)
  have "returns (parseMatrixExpression P) (keptOnly P)"
    using 7(1) [OF refl, THEN returns_kept(1)] 7(2) [OF refl]
    by (auto simp: parseMatrixExpression.simps [of P] kept_simps Let_def split: result.splits)
  then show ?case
    by (rule foreign_keptOnly) (rule parseMatrixExpression_result)
next
  case (8 rows currentRow P)
  note IH = 8
  show ?case
  proof (cases "peek P 0")
    case None
    then show ?thesis
      by (simp add: parseMatrix_loop.simps [of rows currentRow P] kept_simps)
  next
    case (Some t)
    note [simp] = parseMatrix_loop.simps [of rows currentRow P] Some
    consider (rbrace) "tok_type t = RBrace" | (comma) "tok_type t = Comma"
      | (semicolon) "tok_type t = Semicolon"
      | (other) "tok_type t \<notin> {RBrace, Comma, Semicolon}"
      by auto
    then show ?thesis
    proof cases
      case rbrace
      then show ?thesis by (simp add: kept_simps)
    next
      case comma
      then show ?thesis
        using IH(1) [OF Some, THEN returns_kept(1)] IH(2) [OF Some]
        by (auto simp: kept_simps split: result.splits elim!: returns_weaken)
    next
      case semicolon
      then show ?thesis
        using IH(3) [OF Some, THEN returns_kept(1)] IH(4) [OF Some]
        by (auto simp: kept_simps split: result.splits elim!: returns_weaken)
    next
      case other
      then show ?thesis
        using IH(5) [OF Some]
        by (auto simp: kept_simps split: result.splits elim!: returns_weaken)
    qed
  qed
next
  case (9 P)
  show ?case
    unfolding parseExponent.simps [of P]
    by (rule level_loop [OF 9(1)]) (simp_all add: 9(2))
next
  case (10 node P)
  show ?case
  proof (cases "peekType P = Some Power")
    case False
    then show ?thesis
      by (simp add: parseExponent_loop.simps [of node P] continued_refl)
  next
    case True
    show ?thesis
    proof (cases P rule: consumeValue_cases)
      case (throw Q)
      then show ?thesis using True by (simp add: parseExponent_loop.simps [of node P])
    next
      case (return t)
      have ty: "tok_type t = Power"
        using True return(1) by (simp add: peekType_def)
      have "returns
          (case parsePrimary (P\<lparr>position := position P + 1\<rparr>) of
             Throw Q \<Rightarrow> Throw Q
           | Return right P2 \<Rightarrow>
               parseExponent_loop (BinaryExpression (tok_value t) node right) P2)
          (continued 5 node P)"
        by (rule binary_loop [OF return(1)])
          (use ty 10(1) [OF True return(2)] 10(2) [OF True return(2)] in simp_all)
      then show ?thesis
        using True by (simp add: parseExponent_loop.simps [of node P] return(2))
    qed
  qed
next
  case (11 P)
  show ?case
    unfolding parseTerm.simps [of P]
    by (rule level_loop [OF 11(1)]) (simp_all add: 11(2))
next
  case (12 node P)
  show ?case
  proof (cases "peekType P = Some Multiply \<or> peekType P = Some Divide")
    case False
    then show ?thesis
      by (simp add: parseTerm_loop.simps [of node P] continued_refl)
  next
    case True
    show ?thesis
    proof (cases P rule: consumeValue_cases)
      case (throw Q)
      then show ?thesis using True by (simp add: parseTerm_loop.simps [of node P])
    next
      case (return t)
      have ty: "tok_type t = Multiply \<or> tok_type t = Divide"
        using True return(1) by (auto simp: peekType_def)
      have "returns
          (case parseExponent (P\<lparr>position := position P + 1\<rparr>) of
             Throw Q \<Rightarrow> Throw Q
           | Return right P2 \<Rightarrow>
               parseTerm_loop (BinaryExpression (tok_value t) node right) P2)
          (continued 4 node P)"
        by (rule binary_loop [OF return(1)])
          (use ty 12(1) [OF True return(2)] 12(2) [OF True return(2)] in auto)
      then show ?thesis
        using True by (simp add: parseTerm_loop.simps [of node P] return(2))
    qed
  qed
next
  case (13 P)
  show ?case
    unfolding parseAdditive.simps [of P]
    by (rule level_loop [OF 13(1)]) (simp_all add: 13(2))
next
  case (14 node P)
  show ?case
  proof (cases "peekType P = Some Plus \<or> peekType P = Some Minus")
    case False
    then show ?thesis
      by (simp add: parseAdditive_loop.simps [of node P] continued_refl)
  next
    case True
    show ?thesis
    proof (cases P rule: consumeValue_cases)
      case (throw Q)
      then show ?thesis using True by (simp add: parseAdditive_loop.simps [of node P])
    next
      case (return t)
      have ty: "tok_type t = Plus \<or> tok_type t = Minus"
        using True return(1) by (auto simp: peekType_def)
      have "returns
          (case parseTerm (P\<lparr>position := position P + 1\<rparr>) of
             Throw Q \<Rightarrow> Throw Q
           | Return right P2 \<Rightarrow>
               parseAdditive_loop (BinaryExpression (tok_value t) node right) P2)
          (continued 3 node P)"
        by (rule binary_loop [OF return(1)])
          (use ty 14(1) [OF True return(2)] 14(2) [OF True return(2)] in auto)
      then show ?thesis
        using True by (simp add: parseAdditive_loop.simps [of node P] return(2))
    qed
  qed
next
  case (15 P)
  show ?case
    unfolding parseComparison.simps [of P]
    by (rule level_loop [OF 15(1)]) (simp_all add: 15(2))
next
  case (16 node P)
  let ?more = "peekType P = Some LessThan \<or> peekType P = Some GreaterThan
         \<or> peekType P = Some LessEqual \<or> peekType P = Some GreaterEqual
         \<or> peekType P = Some Equals \<or> peekType P = Some NotEqual"
  show ?case
  proof (cases ?more)
    case False
    then show ?thesis
      by (simp add: parseComparison_loop.simps [of node P] continued_refl)
  next
    case True
    show ?thesis
    proof (cases P rule: consumeValue_cases)
      case (throw Q)
      then show ?thesis using True by (simp add: parseComparison_loop.simps [of node P])
    next
      case (return t)
      have ty: "tok_type t \<in> {LessThan, GreaterThan, LessEqual, GreaterEqual, Equals, NotEqual}"
        using True return(1) by (auto simp: peekType_def)
      have "returns
          (case parseAdditive (P\<lparr>position := position P + 1\<rparr>) of
             Throw Q \<Rightarrow> Throw Q
           | Return right P2 \<Rightarrow>
               parseComparison_loop (ComparisonExpression (tok_value t) node right) P2)
          (continued 2 node P)"
        by (rule comparison_loop [OF return(1) ty])
          (use 16(1) [OF True return(2)] 16(2) [OF True return(2)] in simp_all)
      then show ?thesis
        using True by (simp add: parseComparison_loop.simps [of node P] return(2))
    qed
  qed
next
  case (17 P)
  show ?case
  proof (cases "parseComparison P")
    case (Throw Q)
    then show ?thesis by (simp add: parseAssignment.simps [of P])
  next
    case (Return node P1)
    have "peekType P1 \<noteq> Some Equals"
      using no_assignment(15) [of P] Return by (simp add: plainNoEquals_def)
    moreover have "faithful 0 P node P1"
      using 17(1) Return faithful_weaken [of 2 P node P1 0] by simp
    ultimately show ?thesis
      using Return by (auto simp: parseAssignment.simps [of P] split: ast.splits)
  qed
next
  case (18 P)
  then show ?case
    by (simp add: parseExpression.simps [of P])
qed

section \<open>Rendering a parsed input and parsing it again\<close>

text \<open>
  C3, as stated: for every accepted input, the rendering of its tree is accepted
  too and gives an equivalent tree up to ParenthesizedExpression nodes.  This fails
  on "\sin{x}", whose tree is rendered as "sin(x)": the identifier \<^verbatim>\<open>sin\<close> followed
  by tokens that \<^verbatim>\<open>parse\<close> rejects as left over.  It fails in the same way on the
  matrix "{1,2}", rendered as "matrix([[1,2]])"; and on the identifier \<open>\<pi>\<close>, rendered as
  "pi", the second tree is another identifier.
\<close>

theorem C3_counterexample:
  "parse (lex_js (0x5C # js ''sin{x}''))
     = Inr (FunctionCall (0x5C # js ''sin'') [Identifier (js ''x'')])
   \<and> astToString (FunctionCall (0x5C # js ''sin'') [Identifier (js ''x'')]) = js ''sin(x)''
   \<and> parse (lex_js (js ''sin(x)''))
     = Inl (Error (msgTrailingTokens @ js ''( x )'' @ msgTokenLabel @ js ''( (LParen)''))
   \<and> parse (lex_js (js ''{1,2}''))
     = Inr (MatrixExpression [[NumberLiteral (js ''1''), NumberLiteral (js ''2'')]])
   \<and> astToString (MatrixExpression [[NumberLiteral (js ''1''), NumberLiteral (js ''2'')]])
     = js ''matrix([[1,2]])''
   \<and> parse (lex_js (js ''matrix([[1,2]])''))
     = Inl (Error (msgTrailingTokens @ js ''( [ [ 1 , 2 ] ] )'' @ msgTokenLabel
         @ js ''( (LParen)''))
   \<and> parse (lex_js [0x3C0]) = Inr (Identifier [0x3C0])
   \<and> astToString (Identifier [0x3C0]) = js ''pi''
   \<and> parse (lex_js (js ''pi'')) = Inr (Identifier (js ''pi''))
   \<and> unwrap (Identifier (js ''pi'')) \<noteq> unwrap (Identifier [0x3C0])"
  by (intro conjI; code_simp)

text \<open>
  C3, amended: for every accepted input whose tree has no FunctionCall node, no
  MatrixExpression node and no identifier \<open>\<pi>\<close>, the rendering of the tree is accepted
  too and gives the same tree, hence an equivalent one.
\<close>

theorem C3_round_trip:
  assumes accepted: "parse (lex_js s) = Inr a" and own: "ownSyntax a"
  shows "parse (lex_js (astToString a)) = Inr a"
proof -
  obtain Q where Q: "parseExpression (newParser (lex_js s)) = Return a Q"
    and all: "\<not> position Q < length (tokens Q)" and none: "length (errors Q) = 0"
    using accepted
    by (auto simp: parse_def parser_parse_def addError_def Let_def
        split: result.splits if_splits option.splits)
  have f: "faithful 0 (newParser (lex_js s)) a Q"
    using productions_faithful(18) [of "newParser (lex_js s)"] Q by simp
  have "list_all lexical (lex_js s)"
    using scan_lexical [of _ s] by (simp add: lex_js_scan list_all_iff)
  then have "clean (newParser (lex_js s)) Q"
    using none by (simp add: clean_def newParser_def)
  then have wf: "wellFormed a" and eq: "ahead (newParser (lex_js s)) = toks a @ ahead Q"
    using f own by (simp_all add: faithful_def)
  have "tokens Q = lex_js s"
    using f by (simp add: faithful_def kept_def newParser_def)
  then have "ahead Q = []"
    using all by (simp add: ahead_def)
  then have "lex_js s = toks a"
    using eq by (simp add: ahead_def newParser_def)
  moreover have "lex_js (astToString a) = toks a"
    using scan_astToString [OF wf separated_Nil] by (simp add: lex_js_scan)
  ultimately show ?thesis
    using accepted by simp
qed

theorem C3_round_trip_witness:
  "parse (lex_js (js ''-(a + 2) * [1, x^2] <= 3''))
     = Inr (ComparisonExpression (js ''<='')
         (BinaryExpression (js ''*'')
            (UnaryExpression (js ''-'')
               (ParenthesizedExpression
                  (BinaryExpression (js ''+'') (Identifier (js ''a'')) (NumberLiteral (js ''2'')))))
            (ArrayExpression
               [NumberLiteral (js ''1''),
                BinaryExpression (js ''^'') (Identifier (js ''x'')) (NumberLiteral (js ''2''))]))
         (NumberLiteral (js ''3'')))
   \<and> astToString (ComparisonExpression (js ''<='')
         (BinaryExpression (js ''*'')
            (UnaryExpression (js ''-'')
               (ParenthesizedExpression
                  (BinaryExpression (js ''+'') (Identifier (js ''a'')) (NumberLiteral (js ''2'')))))
            (ArrayExpression
               [NumberLiteral (js ''1''),
                BinaryExpression (js ''^'') (Identifier (js ''x'')) (NumberLiteral (js ''2''))]))
         (NumberLiteral (js ''3'')))
     = js ''-(a+2)*[1,x^2]<=3''
   \<and> parse (lex_js (js ''-(a+2)*[1,x^2]<=3''))
     = Inr (ComparisonExpression (js ''<='')
         (BinaryExpression (js ''*'')
            (UnaryExpression (js ''-'')
               (ParenthesizedExpression
                  (BinaryExpression (js ''+'') (Identifier (js ''a'')) (NumberLiteral (js ''2'')))))
            (ArrayExpression
               [NumberLiteral (js ''1''),
                BinaryExpression (js ''^'') (Identifier (js ''x'')) (NumberLiteral (js ''2''))]))
         (NumberLiteral (js ''3'')))"
proof -
  let ?a = "ComparisonExpression (js ''<='')
         (BinaryExpression (js ''*'')
            (UnaryExpression (js ''-'')
               (ParenthesizedExpression
                  (BinaryExpression (js ''+'') (Identifier (js ''a'')) (NumberLiteral (js ''2'')))))
            (ArrayExpression
               [NumberLiteral (js ''1''),
                BinaryExpression (js ''^'') (Identifier (js ''x'')) (NumberLiteral (js ''2''))]))
         (NumberLiteral (js ''3''))"
  have p: "parse (lex_js (js ''-(a + 2) * [1, x^2] <= 3'')) = Inr ?a"
    by code_simp
  have o: "ownSyntax ?a"
    by code_simp
  have r: "astToString ?a = js ''-(a+2)*[1,x^2]<=3''"
    by code_simp
  show ?thesis
    using C3_round_trip [OF p o] p unfolding r by simp
qed

end
